theory Spec2Isabelle
  imports Complex_Main
begin

section \<open>Tagged values\<close>

text \<open>
  The table engine of \<^verbatim>\<open>ltable.c\<close> maps tagged values to tagged values. The variants are
  the tags that the switch of \<^verbatim>\<open>luaH_mainposition\<close> lists, the tag \<^verbatim>\<open>LUA_T_NIL\<close>, and one
  constructor for every tag that the switch leaves to its \<^verbatim>\<open>default\<close> branch.

  A number is a C floating-point value; the model carries a rational, which covers every
  finite value. The infinities and not-a-number are outside the model: their conversion to
  \<^verbatim>\<open>long\<close> in \<^verbatim>\<open>luaH_mainposition\<close> is undefined in C, as is that of a value beyond
  the range of \<^verbatim>\<open>long\<close>, which the model wraps around. A string or userdata value points
  to a \<^verbatim>\<open>TaggedString\<close>, whose \<^verbatim>\<open>hash\<close> field the table reads; the model carries the
  address together with that field. The other variants are compared and hashed by the
  address they hold.
\<close>

datatype TaggedString = TaggedString (ts_addr: nat) (ts_hash: nat)

datatype TObject =
    LUA_T_NIL
  | LUA_T_NUMBER rat
  | LUA_T_STRING TaggedString
  | LUA_T_USERDATA TaggedString
  | LUA_T_ARRAY nat
  | LUA_T_PROTO nat
  | LUA_T_CPROTO nat
  | LUA_T_CLOSURE nat
  | LUA_T_OTHER nat

text \<open>
  Modelled from the spec: \<^verbatim>\<open>luaO_equalObj\<close> is declared in \<^verbatim>\<open>lobject.h\<close>, which is not
  among the sources. The spec gives value equality for the value variants and identity
  equality for the identity variants, which on \<^typ>\<open>TObject\<close> is equality of the terms.
\<close>

definition luaO_equalObj :: "TObject \<Rightarrow> TObject \<Rightarrow> bool" where
  "luaO_equalObj a b = (a = b)"

section \<open>Nodes and tables\<close>

text \<open>
  A \<^verbatim>\<open>Node\<close> holds a key, a value and a pointer to another node of the same array; the
  pointer is an index here, \<open>None\<close> for \<^verbatim>\<open>NULL\<close>. Of the \<^verbatim>\<open>Hash\<close> structure the model keeps
  the node array, its size and \<^verbatim>\<open>firstfree\<close> (an index into the array); the tag, the
  collector's list link and mark, and the block accounting in \<^verbatim>\<open>L->nblocks\<close> play no part in
  lookup or insertion. Sizes and indices are natural numbers: the \<^verbatim>\<open>int\<close> arithmetic of the
  source is taken not to overflow, and allocation is taken to succeed.
\<close>

record Node =
  key :: TObject
  val :: TObject
  "next" :: "nat option"

record Hash =
  node :: "Node list"
  hsize :: nat
  firstfree :: nat

text \<open>
  What a call can do other than return: raise \<^verbatim>\<open>lua_error("unexpected type to index table")\<close>
  (the spec's \<open>InvalidKeyError\<close>), run into undefined behaviour of C (an access outside the
  node array, a \<^verbatim>\<open>NULL\<close> dereference, a division by zero), or loop forever on a cyclic chain.
  A failing mutator returns the error together with the table as it is at that moment.
\<close>

datatype error = InvalidKeyError | UndefinedBehaviour | NonTermination

section \<open>Main position\<close>

definition long_of_real :: "rat \<Rightarrow> int" where
  "long_of_real x = (if 0 \<le> x then \<lfloor>x\<rfloor> else \<lceil>x\<rceil>)"

definition ulong_of_long :: "int \<Rightarrow> nat" where
  "ulong_of_long i = nat (i mod 2 ^ 64)"

text \<open>The switch of \<^verbatim>\<open>luaH_mainposition\<close>; \<open>None\<close> is its \<^verbatim>\<open>default\<close> branch.\<close>

fun hashvalue :: "TObject \<Rightarrow> nat option" where
  "hashvalue (LUA_T_NUMBER x) = Some (ulong_of_long (long_of_real x))"
| "hashvalue (LUA_T_STRING ts) = Some (ts_hash ts)"
| "hashvalue (LUA_T_USERDATA ts) = Some (ts_hash ts)"
| "hashvalue (LUA_T_ARRAY a) = Some a"
| "hashvalue (LUA_T_PROTO a) = Some a"
| "hashvalue (LUA_T_CPROTO a) = Some a"
| "hashvalue (LUA_T_CLOSURE a) = Some a"
| "hashvalue LUA_T_NIL = None"
| "hashvalue (LUA_T_OTHER tag) = None"

definition luaH_mainposition :: "Hash \<Rightarrow> TObject \<Rightarrow> error + nat" where
  "luaH_mainposition t k =
     (case hashvalue k of
        None \<Rightarrow> Inl InvalidKeyError
      | Some h \<Rightarrow> if hsize t = 0 then Inl UndefinedBehaviour else Inr (h mod hsize t))"

section \<open>Lookup\<close>

text \<open>
  The \<^verbatim>\<open>do ... while (n)\<close> loop of \<^verbatim>\<open>luaH_get\<close>. The first argument bounds the number of
  nodes visited. A walk that visits more nodes than the array has visits one of them twice
  and so never ends in C; \<^verbatim>\<open>luaH_get\<close> starts the loop with the array's length, and the
  model's \<open>NonTermination\<close> is exactly that case.
\<close>

fun get_loop :: "nat \<Rightarrow> Node list \<Rightarrow> TObject \<Rightarrow> nat \<Rightarrow> error + TObject" where
  "get_loop 0 nodes k n = Inl NonTermination"
| "get_loop (Suc fuel) nodes k n =
     (if length nodes \<le> n then Inl UndefinedBehaviour
      else if luaO_equalObj k (key (nodes ! n)) then Inr (val (nodes ! n))
      else (case next (nodes ! n) of
              None \<Rightarrow> Inr LUA_T_NIL
            | Some n' \<Rightarrow> get_loop fuel nodes k n'))"

definition luaH_get :: "Hash \<Rightarrow> TObject \<Rightarrow> error + TObject" where
  "luaH_get t k =
     (case luaH_mainposition t k of
        Inl e \<Rightarrow> Inl e
      | Inr mp \<Rightarrow> get_loop (length (node t)) (node t) k mp)"

section \<open>Creation\<close>

definition hashnodecreate :: "nat \<Rightarrow> Node list" where
  "hashnodecreate nhash = replicate nhash \<lparr>key = LUA_T_NIL, val = LUA_T_NIL, next = None\<rparr>"

text \<open>
  \<^verbatim>\<open>firstfree\<close> is set to the last node. For a size of zero the C pointer lies before the
  array; the index is then \<open>0\<close>, which is outside the empty array as well, so that every
  later use of it is caught by the bounds checks of the model.
\<close>

definition setnodevector :: "Hash \<Rightarrow> nat \<Rightarrow> Hash" where
  "setnodevector t sz = t\<lparr>node := hashnodecreate sz, hsize := sz, firstfree := sz - 1\<rparr>"

text \<open>
  \<^verbatim>\<open>luaO_redimension\<close> is defined in \<^verbatim>\<open>lobject.c\<close>, which is not among the sources; the
  functions that call it take it as the parameter \<open>redim\<close>.
\<close>

definition luaH_new :: "(nat \<Rightarrow> nat) \<Rightarrow> nat \<Rightarrow> Hash" where
  "luaH_new redim sz =
     setnodevector \<lparr>node = [], hsize = 0, firstfree = 0\<rparr> (redim (sz + 1))"

text \<open>The counter \<^verbatim>\<open>realuse\<close> of \<^verbatim>\<open>newsize\<close>: the nodes whose value is not nil.\<close>

definition realuse :: "Node list \<Rightarrow> nat" where
  "realuse nodes = length (filter (\<lambda>n. val n \<noteq> LUA_T_NIL) nodes)"

definition newsize :: "(nat \<Rightarrow> nat) \<Rightarrow> Hash \<Rightarrow> nat" where
  "newsize redim t = redim (realuse (take (hsize t) (node t)) * 2)"

section \<open>Rehash\<close>

text \<open>A \<^verbatim>\<open>for (i=0; i<oldsize; i++)\<close> loop whose body may fail.\<close>

fun for_loop :: "(nat \<Rightarrow> 's \<Rightarrow> 'e + 's) \<Rightarrow> nat list \<Rightarrow> 's \<Rightarrow> 'e + 's" where
  "for_loop body [] s = Inr s"
| "for_loop body (i # is) s =
     (case body i s of Inl e \<Rightarrow> Inl e | Inr s' \<Rightarrow> for_loop body is s')"

text \<open>
  Moving \<^verbatim>\<open>firstfree\<close> down to a node with a nil key, starting at a given index:
  \<^verbatim>\<open>while (ttype(&t->firstfree->key) != LUA_T_NIL) t->firstfree--;\<close>
  The result is \<open>None\<close> when no node from the index down to the first one has a nil key.
\<close>

fun free_below :: "Node list \<Rightarrow> nat \<Rightarrow> nat option" where
  "free_below nodes 0 = (if key (nodes ! 0) = LUA_T_NIL then Some 0 else None)"
| "free_below nodes (Suc f) =
     (if key (nodes ! Suc f) = LUA_T_NIL then Some (Suc f) else free_below nodes f)"

text \<open>
  The body of the first loop of \<^verbatim>\<open>rehash\<close>. The state is the old array, whose \<^verbatim>\<open>next\<close>
  fields the loop overwrites, and the table with its new array.
\<close>

definition rehash_first :: "nat \<Rightarrow> Node list \<times> Hash \<Rightarrow> (error \<times> Hash) + (Node list \<times> Hash)" where
  "rehash_first i s =
     (case s of (nold, t) \<Rightarrow>
        if length nold \<le> i then Inl (UndefinedBehaviour, t)
        else let old = nold ! i in
          if val old = LUA_T_NIL then Inr (nold[i := old\<lparr>next := None\<rparr>], t)
          else (case luaH_mainposition t (key old) of
                  Inl e \<Rightarrow> Inl (e, t)
                | Inr mp \<Rightarrow>
                    if length (node t) \<le> mp then Inl (UndefinedBehaviour, t)
                    else if key (node t ! mp) = LUA_T_NIL then
                      Inr (nold[i := old\<lparr>next := None\<rparr>],
                           t\<lparr>node := (node t)[mp := (node t ! mp)\<lparr>key := key old, val := val old\<rparr>]\<rparr>)
                    else Inr (nold[i := old\<lparr>next := Some mp\<rparr>], t)))"

text \<open>The body of the second loop of \<^verbatim>\<open>rehash\<close>.\<close>

definition rehash_second :: "nat \<Rightarrow> Node list \<times> Hash \<Rightarrow> (error \<times> Hash) + (Node list \<times> Hash)" where
  "rehash_second i s =
     (case s of (nold, t) \<Rightarrow>
        if length nold \<le> i then Inl (UndefinedBehaviour, t)
        else let old = nold ! i in
          (case next old of
             None \<Rightarrow> Inr (nold, t)
           | Some mp \<Rightarrow>
               let e = firstfree t in
               if length (node t) \<le> e \<or> length (node t) \<le> mp then Inl (UndefinedBehaviour, t)
               else
                 let nodes1 = (node t)[e := (node t ! e)\<lparr>key := key old, val := val old\<rparr>];
                     nodes2 = nodes1[e := (nodes1 ! e)\<lparr>next := next (nodes1 ! mp)\<rparr>];
                     nodes3 = nodes2[mp := (nodes2 ! mp)\<lparr>next := Some e\<rparr>];
                     t' = t\<lparr>node := nodes3\<rparr>
                 in if e = 0 then Inl (UndefinedBehaviour, t')
                    else (case free_below nodes3 (e - 1) of
                            None \<Rightarrow> Inl (UndefinedBehaviour, t')
                          | Some f \<Rightarrow> Inr (nold, t'\<lparr>firstfree := f\<rparr>))))"

definition rehash :: "(nat \<Rightarrow> nat) \<Rightarrow> Hash \<Rightarrow> (error \<times> Hash) + Hash" where
  "rehash redim t =
     (let oldsize = hsize t;
          nold = node t;
          t1 = setnodevector t (newsize redim t)
      in case for_loop rehash_first [0..<oldsize] (nold, t1) of
           Inl e \<Rightarrow> Inl e
         | Inr (nold2, t2) \<Rightarrow>
             if length (node t2) \<le> firstfree t2 then Inl (UndefinedBehaviour, t2)
             else (case free_below (node t2) (firstfree t2) of
                     None \<Rightarrow> Inl (UndefinedBehaviour, t2)
                   | Some f \<Rightarrow>
                       (case for_loop rehash_second [0..<oldsize] (nold2, t2\<lparr>firstfree := f\<rparr>) of
                          Inl e \<Rightarrow> Inl e
                        | Inr (nold3, t3) \<Rightarrow> Inr t3)))"

section \<open>Insertion\<close>

text \<open>
  The first loop of \<^verbatim>\<open>luaH_set\<close>: the key is looked for along the chain of its main position,
  and where it is found the value of that node is overwritten and the call returns;
  \<open>None\<close> says that the chain ended without the key.
\<close>

fun set_loop :: "nat \<Rightarrow> Hash \<Rightarrow> TObject \<Rightarrow> TObject \<Rightarrow> nat \<Rightarrow> error + Hash option" where
  "set_loop 0 t k v n = Inl NonTermination"
| "set_loop (Suc fuel) t k v n =
     (if length (node t) \<le> n then Inl UndefinedBehaviour
      else if luaO_equalObj k (key (node t ! n)) then
        Inr (Some (t\<lparr>node := (node t)[n := (node t ! n)\<lparr>val := v\<rparr>]\<rparr>))
      else (case next (node t ! n) of
              None \<Rightarrow> Inr None
            | Some n' \<Rightarrow> set_loop fuel t k v n'))"

text \<open>
  \<^verbatim>\<open>while (othern->next != mp) othern = othern->next;\<close> finds the node before \<open>mp\<close> in the
  chain that starts at \<open>othern\<close>. Reaching the end of the chain dereferences \<^verbatim>\<open>NULL\<close>.
\<close>

fun find_previous :: "nat \<Rightarrow> Node list \<Rightarrow> nat \<Rightarrow> nat \<Rightarrow> error + nat" where
  "find_previous 0 nodes mp othern = Inl NonTermination"
| "find_previous (Suc fuel) nodes mp othern =
     (if length nodes \<le> othern then Inl UndefinedBehaviour
      else (case next (nodes ! othern) of
              None \<Rightarrow> Inl UndefinedBehaviour
            | Some n' \<Rightarrow> if n' = mp then Inr othern else find_previous fuel nodes mp n'))"

text \<open>
  The colliding node is moved into the free position \<open>n\<close>, and \<open>mp\<close> is left free:
  the first branch of the collision case.
\<close>

definition move_colliding :: "Hash \<Rightarrow> nat \<Rightarrow> nat \<Rightarrow> nat \<Rightarrow> (error \<times> Hash) + Hash" where
  "move_colliding t mp n othern =
     (case find_previous (length (node t)) (node t) mp othern of
        Inl e \<Rightarrow> Inl (e, t)
      | Inr prev \<Rightarrow>
          let nodes1 = (node t)[prev := (node t ! prev)\<lparr>next := Some n\<rparr>];
              nodes2 = nodes1[n := nodes1 ! mp];
              nodes3 = nodes2[mp := (nodes2 ! mp)\<lparr>next := None\<rparr>]
          in Inr (t\<lparr>node := nodes3\<rparr>))"

text \<open>
  The new node goes into the free position \<open>n\<close>, chained right after \<open>mp\<close>: the second
  branch of the collision case.
\<close>

definition chain_new :: "Hash \<Rightarrow> nat \<Rightarrow> nat \<Rightarrow> Hash" where
  "chain_new t mp n =
     (let nodes1 = (node t)[n := (node t ! n)\<lparr>next := next (node t ! mp)\<rparr>];
          nodes2 = nodes1[mp := (nodes1 ! mp)\<lparr>next := Some n\<rparr>]
      in t\<lparr>node := nodes2\<rparr>)"

text \<open>
  Lines 248 to 268 of \<^verbatim>\<open>luaH_set\<close>: the key was not found, and the pair is inserted. The
  result is the table before the check for free places. The node \<open>mp\<close> has been read by the
  loop before, so it lies in the array; the free position \<open>n\<close> is read only by the branch that
  was taken, and it lies in the array whenever it is below \<open>mp\<close>.
\<close>

definition insert_pair :: "Hash \<Rightarrow> TObject \<Rightarrow> TObject \<Rightarrow> nat \<Rightarrow> (error \<times> Hash) + Hash" where
  "insert_pair t k v mp =
     (let put = (\<lambda>t' p. t'\<lparr>node := (node t')[p := (node t' ! p)\<lparr>key := k, val := v\<rparr>]\<rparr>) in
      if key (node t ! mp) \<noteq> LUA_T_NIL then
        (let n = firstfree t in
         if n < mp then
           (case luaH_mainposition t (key (node t ! mp)) of
              Inl e \<Rightarrow> Inl (e, t)
            | Inr othern \<Rightarrow>
                if othern \<noteq> mp then
                  (case move_colliding t mp n othern of
                     Inl e \<Rightarrow> Inl e
                   | Inr t' \<Rightarrow> Inr (put t' mp))
                else Inr (put (chain_new t mp n) n))
         else if length (node t) \<le> n then Inl (UndefinedBehaviour, t)
         else Inr (put (chain_new t mp n) n))
      else Inr (put t mp))"

text \<open>
  The closing \<^verbatim>\<open>for (;;)\<close> loop of \<^verbatim>\<open>luaH_set\<close>: \<^verbatim>\<open>firstfree\<close> moves down to a node with a nil
  key; when there is none down to the first node, the table is rehashed.
\<close>

definition check_free :: "(nat \<Rightarrow> nat) \<Rightarrow> Hash \<Rightarrow> (error \<times> Hash) + Hash" where
  "check_free redim t =
     (if length (node t) \<le> firstfree t then Inl (UndefinedBehaviour, t)
      else (case free_below (node t) (firstfree t) of
              Some f \<Rightarrow> Inr (t\<lparr>firstfree := f\<rparr>)
            | None \<Rightarrow> rehash redim (t\<lparr>firstfree := 0\<rparr>)))"

definition luaH_set :: "(nat \<Rightarrow> nat) \<Rightarrow> Hash \<Rightarrow> TObject \<Rightarrow> TObject \<Rightarrow> (error \<times> Hash) + Hash" where
  "luaH_set redim t k v =
     (case luaH_mainposition t k of
        Inl e \<Rightarrow> Inl (e, t)
      | Inr mp \<Rightarrow>
          (case set_loop (length (node t)) t k v mp of
             Inl e \<Rightarrow> Inl (e, t)
           | Inr (Some t') \<Rightarrow> Inr t'
           | Inr None \<Rightarrow>
               (case insert_pair t k v mp of
                  Inl e \<Rightarrow> Inl e
                | Inr t' \<Rightarrow> check_free redim t')))"

section \<open>A sequence of calls\<close>

text \<open>
  The tables a program can hold are those made by \<^verbatim>\<open>luaH_new\<close> and changed by calls of
  \<^verbatim>\<open>luaH_set\<close> that return (\<^verbatim>\<open>luaH_setint\<close> is \<^verbatim>\<open>luaH_set\<close> with a number as the key).
  \<open>sets\<close> runs a list of such calls and stops at the first error.
\<close>

fun sets :: "(nat \<Rightarrow> nat) \<Rightarrow> Hash \<Rightarrow> (TObject \<times> TObject) list \<Rightarrow> (error \<times> Hash) + Hash" where
  "sets redim t [] = Inr t"
| "sets redim t ((k, v) # ops) =
     (case luaH_set redim t k v of Inl e \<Rightarrow> Inl e | Inr t' \<Rightarrow> sets redim t' ops)"

inductive reachable :: "(nat \<Rightarrow> nat) \<Rightarrow> Hash \<Rightarrow> bool" for redim where
  new: "reachable redim (luaH_new redim n)"
| set: "reachable redim t \<Longrightarrow> luaH_set redim t k v = Inr t' \<Longrightarrow> reachable redim t'"

text \<open>
  What is assumed of \<^verbatim>\<open>luaO_redimension\<close>: it rounds its argument up, and never to zero.
\<close>

definition rounds_up :: "(nat \<Rightarrow> nat) \<Rightarrow> bool" where
  "rounds_up redim = (\<forall>n. n \<le> redim n \<and> 0 < redim n)"

section \<open>The invariant of a table\<close>

text \<open>
  The list of the nodes that a walk along the \<^verbatim>\<open>next\<close> pointers visits from \<open>p\<close> until it
  reaches \<^verbatim>\<open>NULL\<close>.
\<close>

fun chain :: "Node list \<Rightarrow> nat option \<Rightarrow> nat list \<Rightarrow> bool" where
  "chain nodes p [] = (p = None)"
| "chain nodes p (x # xs) = (p = Some x \<and> x < length nodes \<and> chain nodes (next (nodes ! x)) xs)"

text \<open>
  A node is rooted when the chain that starts at the main position of its key reaches it,
  and every node of that chain holds a key with that same main position
  (\<^verbatim>\<open>listfind(mp, n)\<close> in \<^verbatim>\<open>check_invariant\<close>).
\<close>

definition rooted :: "Hash \<Rightarrow> nat \<Rightarrow> bool" where
  "rooted t i =
     (\<exists>r xs. luaH_mainposition t (key (node t ! i)) = Inr r \<and> chain (node t) (Some r) xs \<and>
        i \<in> set xs \<and> (\<forall>j\<in>set xs. luaH_mainposition t (key (node t ! j)) = Inr r))"

definition nil_nodes_empty :: "Node list \<Rightarrow> bool" where
  "nil_nodes_empty nodes =
     (\<forall>i<length nodes. key (nodes ! i) = LUA_T_NIL \<longrightarrow>
        val (nodes ! i) = LUA_T_NIL \<and> next (nodes ! i) = None)"

definition keys_distinct :: "Node list \<Rightarrow> bool" where
  "keys_distinct nodes =
     (\<forall>i<length nodes. \<forall>j<length nodes.
        key (nodes ! i) = key (nodes ! j) \<and> key (nodes ! i) \<noteq> LUA_T_NIL \<longrightarrow> i = j)"

definition table_ok :: "Hash \<Rightarrow> bool" where
  "table_ok t =
     (hsize t = length (node t) \<and> nil_nodes_empty (node t) \<and> keys_distinct (node t) \<and>
      (\<forall>i<length (node t). key (node t ! i) \<noteq> LUA_T_NIL \<longrightarrow> rooted t i))"

text \<open>
  The part of \<^verbatim>\<open>check_invariant\<close> about \<^verbatim>\<open>firstfree\<close>: no node after it has a nil key, and
  every node before it has a nil key or is in its main position.
\<close>

definition cursor_ok :: "Hash \<Rightarrow> bool" where
  "cursor_ok t =
     (firstfree t < length (node t) \<and>
      (\<forall>i<length (node t). firstfree t < i \<longrightarrow> key (node t ! i) \<noteq> LUA_T_NIL) \<and>
      (\<forall>i<firstfree t. key (node t ! i) \<noteq> LUA_T_NIL \<longrightarrow> luaH_mainposition t (key (node t ! i)) = Inr i))"

definition invariant :: "Hash \<Rightarrow> bool" where
  "invariant t = (table_ok t \<and> cursor_ok t \<and> key (node t ! firstfree t) = LUA_T_NIL)"

text \<open>
  The main-position invariant as the header comment of \<^verbatim>\<open>ltable.c\<close> and \<^verbatim>\<open>check_invariant\<close>
  state it. A node counts as occupied when its key is not nil, as in \<^verbatim>\<open>check_invariant\<close>.
\<close>

definition main_position_invariant :: "Hash \<Rightarrow> bool" where
  "main_position_invariant t =
     (\<forall>i<hsize t. key (node t ! i) \<noteq> LUA_T_NIL \<longrightarrow>
        (\<exists>mp. luaH_mainposition t (key (node t ! i)) = Inr mp \<and>
           (mp \<noteq> i \<longrightarrow> key (node t ! mp) \<noteq> LUA_T_NIL \<and>
              luaH_mainposition t (key (node t ! mp)) = Inr mp)))"

section \<open>The mapping a table holds\<close>

text \<open>The value stored with a key in the node array, nil when no node holds the key.\<close>

definition lookup :: "Node list \<Rightarrow> TObject \<Rightarrow> TObject" where
  "lookup nodes k = (case find (\<lambda>n. key n = k) nodes of None \<Rightarrow> LUA_T_NIL | Some n \<Rightarrow> val n)"


text \<open>The number of nodes whose key is not nil, and of old nodes that the first loop of
  \<^verbatim>\<open>rehash\<close> left for the second.\<close>

definition nkeys :: "Node list \<Rightarrow> nat" where
  "nkeys nodes = length (filter (\<lambda>n. key n \<noteq> LUA_T_NIL) nodes)"

definition marked :: "Node list \<Rightarrow> nat" where
  "marked nodes = length (filter (\<lambda>n. next n \<noteq> None) nodes)"

section \<open>The loop invariants of rehash\<close>

text \<open>
  During the first loop every node of the new array is alone in its chain and, when it
  holds a key, in its main position.
\<close>

definition direct_ok :: "nat \<Rightarrow> Hash \<Rightarrow> bool" where
  "direct_ok N t =
     (hsize t = N \<and> length (node t) = N \<and>
      (\<forall>m<N. next (node t ! m) = None \<and>
         (key (node t ! m) = LUA_T_NIL \<longrightarrow> val (node t ! m) = LUA_T_NIL) \<and>
         (key (node t ! m) \<noteq> LUA_T_NIL \<longrightarrow> luaH_mainposition t (key (node t ! m)) = Inr m)))"

text \<open>
  The new array holds the pairs of the old nodes before \<open>i\<close> that have a value and were
  not left for the second loop, and nothing else.
\<close>

definition copied :: "Node list \<Rightarrow> Hash \<Rightarrow> nat \<Rightarrow> bool" where
  "copied nold t i =
     ((\<forall>j<i. val (nold ! j) \<noteq> LUA_T_NIL \<and> next (nold ! j) = None \<longrightarrow>
         (\<exists>m<length (node t). key (node t ! m) = key (nold ! j) \<and> val (node t ! m) = val (nold ! j))) \<and>
      (\<forall>m<length (node t). key (node t ! m) \<noteq> LUA_T_NIL \<longrightarrow>
         (\<exists>j<i. next (nold ! j) = None \<and> val (nold ! j) \<noteq> LUA_T_NIL \<and>
            key (nold ! j) = key (node t ! m) \<and> val (nold ! j) = val (node t ! m))))"

text \<open>An old node left for the second loop points to the new main position of its key,
  which is taken.\<close>

definition marks_ok :: "Node list \<Rightarrow> Hash \<Rightarrow> nat \<Rightarrow> bool" where
  "marks_ok nold t i =
     (\<forall>j<i. \<forall>m. next (nold ! j) = Some m \<longrightarrow>
        val (nold ! j) \<noteq> LUA_T_NIL \<and> luaH_mainposition t (key (nold ! j)) = Inr m \<and>
        key (node t ! m) \<noteq> LUA_T_NIL)"

definition old_kept :: "Node list \<Rightarrow> Node list \<Rightarrow> bool" where
  "old_kept nold0 nold =
     (length nold = length nold0 \<and>
      (\<forall>j<length nold0. key (nold ! j) = key (nold0 ! j) \<and> val (nold ! j) = val (nold0 ! j)))"

definition first_inv :: "Node list \<Rightarrow> nat \<Rightarrow> nat \<Rightarrow> Node list \<times> Hash \<Rightarrow> bool" where
  "first_inv nold0 N i s =
     (case s of (nold, t) \<Rightarrow>
        old_kept nold0 nold \<and> direct_ok N t \<and> firstfree t = N - 1 \<and>
        copied nold t i \<and> marks_ok nold t i \<and>
        nkeys (node t) + marked (take i nold) + realuse (drop i nold) \<le> realuse nold0)"

definition marks2 :: "Node list \<Rightarrow> Hash \<Rightarrow> nat \<Rightarrow> bool" where
  "marks2 nold t i =
     (\<forall>j<length nold. i \<le> j \<longrightarrow> (\<forall>m. next (nold ! j) = Some m \<longrightarrow>
        val (nold ! j) \<noteq> LUA_T_NIL \<and> luaH_mainposition t (key (nold ! j)) = Inr m \<and>
        luaH_mainposition t (key (node t ! m)) = Inr m))"

definition copied2 :: "Node list \<Rightarrow> Hash \<Rightarrow> nat \<Rightarrow> bool" where
  "copied2 nold t i =
     ((\<forall>j<length nold. val (nold ! j) \<noteq> LUA_T_NIL \<and> (next (nold ! j) = None \<or> j < i) \<longrightarrow>
         (\<exists>m<length (node t). key (node t ! m) = key (nold ! j) \<and> val (node t ! m) = val (nold ! j))) \<and>
      (\<forall>m<length (node t). key (node t ! m) \<noteq> LUA_T_NIL \<longrightarrow>
         (\<exists>j<length nold. (next (nold ! j) = None \<or> j < i) \<and> val (nold ! j) \<noteq> LUA_T_NIL \<and>
            key (nold ! j) = key (node t ! m) \<and> val (nold ! j) = val (node t ! m))))"

definition second_inv :: "Node list \<Rightarrow> nat \<Rightarrow> nat \<Rightarrow> nat \<Rightarrow> Node list \<times> Hash \<Rightarrow> bool" where
  "second_inv nold R N i s =
     (case s of (nold', t) \<Rightarrow>
        nold' = nold \<and> invariant t \<and> hsize t = N \<and> marks2 nold t i \<and> copied2 nold t i \<and>
        nkeys (node t) + marked (drop i nold) \<le> R \<and> R < length (node t))"

section \<open>Properties\<close>

subsection \<open>Chains\<close>

lemma chain_bound: "chain nodes p xs \<Longrightarrow> x \<in> set xs \<Longrightarrow> x < length nodes"
  by (induction xs arbitrary: p) auto

lemma chain_unique: "chain nodes p xs \<Longrightarrow> chain nodes p ys \<Longrightarrow> xs = ys"
proof (induction xs arbitrary: p ys)
  case Nil
  then show ?case by (cases ys) auto
next
  case (Cons x xs)
  then show ?case by (cases ys) auto
qed

lemma chain_suffix:
  "chain nodes p (xs @ ys) \<Longrightarrow> \<exists>q. chain nodes q ys \<and> (ys \<noteq> [] \<longrightarrow> q = Some (hd ys))"
proof (induction xs arbitrary: p)
  case Nil
  then show ?case by (cases ys) auto
next
  case (Cons x xs)
  from Cons.prems have "chain nodes (next (nodes ! x)) (xs @ ys)" by simp
  then show ?case by (rule Cons.IH)
qed

lemma chain_from_member:
  assumes "chain nodes p xs" "x \<in> set xs"
  shows "\<exists>ys. chain nodes (Some x) (x # ys) \<and> set ys \<subseteq> set xs"
proof -
  from assms(2) obtain as bs where xs: "xs = as @ x # bs"
    by (auto simp: in_set_conv_decomp)
  with assms(1) chain_suffix [of nodes p as "x # bs"] have "chain nodes (Some x) (x # bs)"
    by auto
  with xs show ?thesis by auto
qed

lemma chain_distinct: "chain nodes p xs \<Longrightarrow> distinct xs"
proof (induction xs arbitrary: p)
  case Nil
  then show ?case by simp
next
  case (Cons x xs)
  have "x \<notin> set xs"
  proof
    assume "x \<in> set xs"
    then obtain as bs where xs: "xs = as @ x # bs"
      by (auto simp: in_set_conv_decomp)
    from Cons.prems have c: "chain nodes (Some x) (x # as @ x # bs)" using xs by simp
    with chain_suffix [of nodes "Some x" "x # as" "x # bs"] have "chain nodes (Some x) (x # bs)"
      by auto
    with c chain_unique [of nodes "Some x" "x # as @ x # bs" "x # bs"] show False by simp
  qed
  with Cons show ?case by auto
qed

lemma chain_length: "chain nodes p xs \<Longrightarrow> length xs \<le> length nodes"
proof -
  assume c: "chain nodes p xs"
  then have "distinct xs" by (rule chain_distinct)
  then have "length xs = card (set xs)" by (simp add: distinct_card)
  also have "\<dots> \<le> card {..<length nodes}"
    using chain_bound [OF c] by (intro card_mono) auto
  finally show ?thesis by simp
qed

lemma chain_frame:
  "length nodes' = length nodes \<Longrightarrow> \<forall>x\<in>set xs. next (nodes' ! x) = next (nodes ! x) \<Longrightarrow>
   chain nodes' p xs = chain nodes p xs"
  by (induction xs arbitrary: p) auto

lemma chain_map:
  "chain nodes p xs \<Longrightarrow>
   \<forall>x\<in>set xs. f x < length nodes' \<and> next (nodes' ! f x) = map_option f (next (nodes ! x)) \<Longrightarrow>
   chain nodes' (map_option f p) (map f xs)"
  by (induction xs arbitrary: p) auto

lemma chain_nth_next:
  "chain nodes p xs \<Longrightarrow> i < length xs \<Longrightarrow>
   next (nodes ! (xs ! i)) = (if Suc i < length xs then Some (xs ! Suc i) else None)"
proof (induction xs arbitrary: p i)
  case Nil
  then show ?case by simp
next
  case (Cons x xs)
  show ?case
  proof (cases i)
    case 0
    with Cons.prems show ?thesis by (cases xs) auto
  next
    case (Suc j)
    with Cons.prems Cons.IH [of "next (nodes ! x)" j] show ?thesis by simp
  qed
qed

lemma chain_pred_unique:
  assumes "chain nodes p xs" "x \<in> set xs" "y \<in> set xs"
    "next (nodes ! x) = Some m" "next (nodes ! y) = Some m"
  shows "x = y"
proof -
  from assms(2) obtain i where i: "i < length xs" "xs ! i = x" by (auto simp: in_set_conv_nth)
  from assms(3) obtain j where j: "j < length xs" "xs ! j = y" by (auto simp: in_set_conv_nth)
  from chain_nth_next [OF assms(1) i(1)] assms(4) i have si: "Suc i < length xs" "xs ! Suc i = m"
    by (auto split: if_splits)
  from chain_nth_next [OF assms(1) j(1)] assms(5) j have sj: "Suc j < length xs" "xs ! Suc j = m"
    by (auto split: if_splits)
  from si sj have "xs ! Suc i = xs ! Suc j" by simp
  with chain_distinct [OF assms(1)] si(1) sj(1) have "Suc i = Suc j"
    by (simp add: nth_eq_iff_index_eq)
  with i j show ?thesis by simp
qed

subsection \<open>Lookup by key\<close>

lemma keys_distinctD:
  "keys_distinct nodes \<Longrightarrow> i < length nodes \<Longrightarrow> j < length nodes \<Longrightarrow>
   key (nodes ! i) = key (nodes ! j) \<Longrightarrow> key (nodes ! i) \<noteq> LUA_T_NIL \<Longrightarrow> i = j"
  unfolding keys_distinct_def by blast

lemma lookup_present:
  assumes "keys_distinct nodes"
    and "i < length nodes" "key (nodes ! i) = k" "k \<noteq> LUA_T_NIL"
  shows "lookup nodes k = val (nodes ! i)"
proof -
  have "find (\<lambda>n. key n = k) nodes \<noteq> None"
    using assms(2,3) by (auto simp: find_None_iff in_set_conv_nth)
  then obtain n where n: "find (\<lambda>n. key n = k) nodes = Some n" by auto
  then obtain j where j: "j < length nodes" "key (nodes ! j) = k" "n = nodes ! j"
    by (auto simp: find_Some_iff)
  with assms keys_distinctD [of nodes i j] have "i = j" by simp
  with n j show ?thesis by (simp add: lookup_def)
qed

lemma lookup_absent:
  "\<forall>i<length nodes. key (nodes ! i) \<noteq> k \<Longrightarrow> lookup nodes k = LUA_T_NIL"
proof -
  assume "\<forall>i<length nodes. key (nodes ! i) \<noteq> k"
  then have "find (\<lambda>n. key n = k) nodes = None"
    by (auto simp: find_None_iff in_set_conv_nth)
  then show ?thesis by (simp add: lookup_def)
qed

subsection \<open>The loops along a chain\<close>

lemma get_loop_chain:
  "chain nodes (Some n) xs \<Longrightarrow> length xs \<le> fuel \<Longrightarrow>
   get_loop fuel nodes k n =
     Inr (case find (\<lambda>i. key (nodes ! i) = k) xs of None \<Rightarrow> LUA_T_NIL | Some i \<Rightarrow> val (nodes ! i))"
proof (induction xs arbitrary: n fuel)
  case Nil
  then show ?case by simp
next
  case (Cons x xs)
  from Cons.prems obtain f where fuel: "fuel = Suc f" and f: "length xs \<le> f"
    by (cases fuel) auto
  from Cons.prems have x: "n = x" "x < length nodes" and c: "chain nodes (next (nodes ! x)) xs"
    by auto
  show ?case
  proof (cases "key (nodes ! x) = k")
    case True
    with x fuel show ?thesis by (simp add: luaO_equalObj_def)
  next
    case False
    show ?thesis
    proof (cases "next (nodes ! x)")
      case None
      with c have "xs = []" by (cases xs) auto
      with None False x fuel show ?thesis by (auto simp: luaO_equalObj_def)
    next
      case (Some n')
      with c Cons.IH [of n' f] f have "get_loop f nodes k n' =
        Inr (case find (\<lambda>i. key (nodes ! i) = k) xs of None \<Rightarrow> LUA_T_NIL | Some i \<Rightarrow> val (nodes ! i))"
        by simp
      with Some False x fuel show ?thesis by (auto simp: luaO_equalObj_def)
    qed
  qed
qed

lemma set_loop_chain:
  "chain (node t) (Some n) xs \<Longrightarrow> length xs \<le> fuel \<Longrightarrow>
   set_loop fuel t k v n =
     Inr (map_option (\<lambda>i. t\<lparr>node := (node t)[i := (node t ! i)\<lparr>val := v\<rparr>]\<rparr>)
            (find (\<lambda>i. key (node t ! i) = k) xs))"
proof (induction xs arbitrary: n fuel)
  case Nil
  then show ?case by simp
next
  case (Cons x xs)
  from Cons.prems obtain f where fuel: "fuel = Suc f" and f: "length xs \<le> f"
    by (cases fuel) auto
  from Cons.prems have x: "n = x" "x < length (node t)"
    and c: "chain (node t) (next (node t ! x)) xs"
    by auto
  show ?case
  proof (cases "key (node t ! x) = k")
    case True
    with x fuel show ?thesis by (simp add: luaO_equalObj_def)
  next
    case False
    show ?thesis
    proof (cases "next (node t ! x)")
      case None
      with c have "xs = []" by (cases xs) auto
      with None False x fuel show ?thesis by (auto simp: luaO_equalObj_def)
    next
      case (Some n')
      with c Cons.IH [of n' f] f have "set_loop f t k v n' =
        Inr (map_option (\<lambda>i. t\<lparr>node := (node t)[i := (node t ! i)\<lparr>val := v\<rparr>]\<rparr>)
            (find (\<lambda>i. key (node t ! i) = k) xs))"
        by simp
      with Some False x fuel show ?thesis by (auto simp: luaO_equalObj_def)
    qed
  qed
qed

lemma find_previous_chain:
  "chain nodes (Some othern) (ys @ p # mp # zs) \<Longrightarrow> length (ys @ p # mp # zs) \<le> fuel \<Longrightarrow>
   find_previous fuel nodes mp othern = Inr p"
proof (induction ys arbitrary: othern fuel)
  case Nil
  then obtain f where "fuel = Suc f" by (cases fuel) auto
  with Nil show ?case by auto
next
  case (Cons y ys)
  from Cons.prems obtain f where fuel: "fuel = Suc f" and f: "length (ys @ p # mp # zs) \<le> f"
    by (cases fuel) auto
  from Cons.prems have y: "othern = y" "y < length nodes"
    and c: "chain nodes (next (nodes ! y)) (ys @ p # mp # zs)"
    by auto
  from c obtain n' where n': "next (nodes ! y) = Some n'" "n' = hd (ys @ p # mp # zs)"
    by (cases ys) auto
  from chain_distinct [OF Cons.prems(1)] have "mp \<notin> set ys" "mp \<noteq> p" by auto
  with n' have "n' \<noteq> mp" by (cases ys) auto
  with n' y fuel c Cons.IH [of n' f] f show ?case by simp
qed

subsection \<open>Well-formed tables\<close>

lemma mainposition_bound: "luaH_mainposition t k = Inr r \<Longrightarrow> r < hsize t"
  by (auto simp: luaH_mainposition_def split: option.splits if_splits)

lemma mainposition_hashable: "luaH_mainposition t k = Inr r \<Longrightarrow> hashvalue k \<noteq> None"
  by (auto simp: luaH_mainposition_def split: option.splits)

lemma mainposition_not_nil: "luaH_mainposition t k = Inr r \<Longrightarrow> k \<noteq> LUA_T_NIL"
  by (auto simp: luaH_mainposition_def split: option.splits)

lemma mainposition_defined:
  "hashvalue k \<noteq> None \<Longrightarrow> 0 < hsize t \<Longrightarrow> \<exists>r. luaH_mainposition t k = Inr r"
  by (auto simp: luaH_mainposition_def)

lemma mainposition_cong:
  "hsize t' = hsize t \<Longrightarrow> luaH_mainposition t' k = luaH_mainposition t k"
  by (simp add: luaH_mainposition_def split: option.splits)

lemma table_ok_rooted:
  assumes "table_ok t" "i < length (node t)" "key (node t ! i) \<noteq> LUA_T_NIL"
  obtains r xs where "luaH_mainposition t (key (node t ! i)) = Inr r"
    "chain (node t) (Some r) xs" "i \<in> set xs"
    "\<forall>j\<in>set xs. luaH_mainposition t (key (node t ! j)) = Inr r"
proof -
  from assms have "rooted t i" by (simp add: table_ok_def)
  then show ?thesis unfolding rooted_def using that by blast
qed

lemma table_ok_chain_at:
  assumes "table_ok t" "i < length (node t)"
  shows "\<exists>ys. chain (node t) (Some i) (i # ys) \<and>
     (\<forall>j\<in>set ys. luaH_mainposition t (key (node t ! j)) = luaH_mainposition t (key (node t ! i)))"
proof (cases "key (node t ! i) = LUA_T_NIL")
  case True
  with assms have "next (node t ! i) = None" by (simp add: table_ok_def nil_nodes_empty_def)
  with assms(2) have "chain (node t) (Some i) [i]" by simp
  then show ?thesis by (intro exI [of _ "[]"]) simp
next
  case False
  from table_ok_rooted [OF assms False] obtain r xs where
    r: "luaH_mainposition t (key (node t ! i)) = Inr r"
    and c: "chain (node t) (Some r) xs" and i: "i \<in> set xs"
    and m: "\<forall>j\<in>set xs. luaH_mainposition t (key (node t ! j)) = Inr r"
    by blast
  from chain_from_member [OF c i] obtain ys where
    "chain (node t) (Some i) (i # ys)" "set ys \<subseteq> set xs" by blast
  with m r show ?thesis by (intro exI [of _ ys]) auto
qed

lemma table_ok_key_in_chain:
  assumes "table_ok t" "i < length (node t)" "key (node t ! i) = k"
    "luaH_mainposition t k = Inr mp" "chain (node t) (Some mp) xs"
  shows "i \<in> set xs"
proof -
  from assms(3,4) have "key (node t ! i) \<noteq> LUA_T_NIL" by (auto dest: mainposition_not_nil)
  from table_ok_rooted [OF assms(1,2) this] obtain r ys where
    "luaH_mainposition t (key (node t ! i)) = Inr r" "chain (node t) (Some r) ys" "i \<in> set ys"
    by blast
  with assms(3,4,5) chain_unique [of "node t" "Some mp" xs ys] show ?thesis by simp
qed

lemma table_ok_distinct:
  assumes "table_ok t" "i < length (node t)" "j < length (node t)"
    "key (node t ! i) = key (node t ! j)" "key (node t ! i) \<noteq> LUA_T_NIL"
  shows "i = j"
proof -
  from assms(1) have "keys_distinct (node t)" by (simp add: table_ok_def)
  from keys_distinctD [OF this assms(2-5)] show ?thesis .
qed

lemma table_ok_nil:
  "table_ok t \<Longrightarrow> i < length (node t) \<Longrightarrow> key (node t ! i) = LUA_T_NIL \<Longrightarrow>
   val (node t ! i) = LUA_T_NIL \<and> next (node t ! i) = None"
  by (simp add: table_ok_def nil_nodes_empty_def)

lemma table_ok_size: "table_ok t \<Longrightarrow> hsize t = length (node t)"
  by (simp add: table_ok_def)

lemma find_key_present:
  assumes "table_ok t" "luaH_mainposition t k = Inr mp" "chain (node t) (Some mp) xs"
    "i < length (node t)" "key (node t ! i) = k"
  shows "find (\<lambda>i. key (node t ! i) = k) xs = Some i"
proof -
  from assms(2) have nn: "k \<noteq> LUA_T_NIL" by (rule mainposition_not_nil)
  from table_ok_key_in_chain [OF assms(1,4,5,2,3)] have "i \<in> set xs" .
  then have "find (\<lambda>i. key (node t ! i) = k) xs \<noteq> None"
    using assms(5) by (auto simp: find_None_iff)
  then obtain j where j: "find (\<lambda>i. key (node t ! i) = k) xs = Some j" by auto
  then have "j \<in> set xs" "key (node t ! j) = k" by (auto simp: find_Some_iff)
  with chain_bound [OF assms(3)] table_ok_distinct [OF assms(1), of j i] assms(4,5) nn
  have "j = i" by auto
  with j show ?thesis by simp
qed

lemma find_key_absent:
  assumes "chain (node t) (Some mp) xs" "\<forall>i<length (node t). key (node t ! i) \<noteq> k"
  shows "find (\<lambda>i. key (node t ! i) = k) xs = None"
  using chain_bound [OF assms(1)] assms(2) by (auto simp: find_None_iff)

lemma luaH_get_lookup:
  assumes "table_ok t" "0 < hsize t" "hashvalue k \<noteq> None"
  shows "luaH_get t k = Inr (lookup (node t) k)"
proof -
  from mainposition_defined [OF assms(3,2)] obtain mp where mp: "luaH_mainposition t k = Inr mp"
    by blast
  from mainposition_bound [OF mp] assms(1) have b: "mp < length (node t)"
    by (simp add: table_ok_def)
  from table_ok_chain_at [OF assms(1) b] obtain ys where c: "chain (node t) (Some mp) (mp # ys)"
    by blast
  from mp have nn: "k \<noteq> LUA_T_NIL" by (rule mainposition_not_nil)
  have g: "luaH_get t k = Inr (case find (\<lambda>i. key (node t ! i) = k) (mp # ys) of
      None \<Rightarrow> LUA_T_NIL | Some i \<Rightarrow> val (node t ! i))"
    using get_loop_chain [OF c chain_length [OF c]] mp by (simp add: luaH_get_def)
  show ?thesis
  proof (cases "\<exists>i<length (node t). key (node t ! i) = k")
    case True
    then obtain i where i: "i < length (node t)" "key (node t ! i) = k" by blast
    have "lookup (node t) k = val (node t ! i)"
      using assms(1) by (intro lookup_present [OF _ i nn]) (simp add: table_ok_def)
    with g find_key_present [OF assms(1) mp c i] show ?thesis by simp
  next
    case False
    then have a: "\<forall>i<length (node t). key (node t ! i) \<noteq> k" by blast
    then have "lookup (node t) k = LUA_T_NIL" by (rule lookup_absent)
    with g find_key_absent [OF c a] show ?thesis by simp
  qed
qed

subsection \<open>Transfer of the structure between tables\<close>

lemma rooted_frame:
  assumes r: "rooted t i"
    and sz: "hsize t' = hsize t" "length (node t') = length (node t)"
    and same: "\<forall>x<length (node t).
       luaH_mainposition t (key (node t ! x)) = luaH_mainposition t (key (node t ! i)) \<longrightarrow>
       node t' ! x = node t ! x"
  shows "rooted t' i"
proof -
  from r obtain r xs where mp: "luaH_mainposition t (key (node t ! i)) = Inr r"
    and c: "chain (node t) (Some r) xs" and i: "i \<in> set xs"
    and m: "\<forall>j\<in>set xs. luaH_mainposition t (key (node t ! j)) = Inr r"
    unfolding rooted_def by blast
  have eq: "node t' ! x = node t ! x" if "x \<in> set xs" for x
    using same chain_bound [OF c that] m that mp by simp
  then have "chain (node t') (Some r) xs = chain (node t) (Some r) xs"
    using sz(2) by (intro chain_frame) auto
  with c have c': "chain (node t') (Some r) xs" by simp
  have "luaH_mainposition t' (key (node t' ! j)) = Inr r" if "j \<in> set xs" for j
    using eq [OF that] m that mainposition_cong [OF sz(1)] by simp
  with c' i show ?thesis unfolding rooted_def by blast
qed

lemma table_ok_intro:
  assumes "hsize t = length (node t)" "nil_nodes_empty (node t)" "keys_distinct (node t)"
    "\<And>i. i < length (node t) \<Longrightarrow> key (node t ! i) \<noteq> LUA_T_NIL \<Longrightarrow> rooted t i"
  shows "table_ok t"
  using assms by (simp add: table_ok_def)

lemma table_ok_rootedD:
  "table_ok t \<Longrightarrow> i < length (node t) \<Longrightarrow> key (node t ! i) \<noteq> LUA_T_NIL \<Longrightarrow> rooted t i"
  by (simp add: table_ok_def)

lemma table_ok_keys_distinct: "table_ok t \<Longrightarrow> keys_distinct (node t)"
  by (simp add: table_ok_def)

lemma lookup_transfer:
  assumes d: "keys_distinct nodes" and d': "keys_distinct nodes'" and nn: "k \<noteq> LUA_T_NIL"
    and a: "\<And>i. i < length nodes \<Longrightarrow> key (nodes ! i) = k \<Longrightarrow> val (nodes ! i) \<noteq> LUA_T_NIL \<Longrightarrow>
       \<exists>j<length nodes'. key (nodes' ! j) = k \<and> val (nodes' ! j) = val (nodes ! i)"
    and b: "\<And>j. j < length nodes' \<Longrightarrow> key (nodes' ! j) = k \<Longrightarrow>
       \<exists>i<length nodes. key (nodes ! i) = k \<and> val (nodes ! i) = val (nodes' ! j)"
  shows "lookup nodes' k = lookup nodes k"
proof (cases "\<exists>j<length nodes'. key (nodes' ! j) = k")
  case True
  then obtain j where j: "j < length nodes'" "key (nodes' ! j) = k" by blast
  from b [OF j] obtain i where i: "i < length nodes" "key (nodes ! i) = k"
    "val (nodes ! i) = val (nodes' ! j)" by blast
  from lookup_present [OF d' j nn] lookup_present [OF d i(1,2) nn] i(3) show ?thesis by simp
next
  case False
  then have l': "lookup nodes' k = LUA_T_NIL" by (intro lookup_absent) blast
  show ?thesis
  proof (cases "\<exists>i<length nodes. key (nodes ! i) = k")
    case True
    then obtain i where i: "i < length nodes" "key (nodes ! i) = k" by blast
    with a [OF i] False have "val (nodes ! i) = LUA_T_NIL" by blast
    with lookup_present [OF d i nn] l' show ?thesis by simp
  next
    case False
    then have "lookup nodes k = LUA_T_NIL" by (intro lookup_absent) blast
    with l' show ?thesis by simp
  qed
qed

subsection \<open>Overwriting the value of a key that is present\<close>

lemma overwrite_ok:
  assumes ok: "table_ok t" and i: "i < length (node t)" and k: "key (node t ! i) \<noteq> LUA_T_NIL"
    and t'_def: "t' = t\<lparr>node := (node t)[i := (node t ! i)\<lparr>val := v\<rparr>]\<rparr>"
  shows "table_ok t'"
proof (rule table_ok_intro)
  have len: "length (node t') = length (node t)" and sz: "hsize t' = hsize t"
    by (simp_all add: t'_def)
  have key: "key (node t' ! x) = key (node t ! x)" if "x < length (node t)" for x
    using that by (cases "x = i") (simp_all add: t'_def)
  have nxt: "next (node t' ! x) = next (node t ! x)" if "x < length (node t)" for x
    using that by (cases "x = i") (simp_all add: t'_def)
  have vl: "val (node t' ! x) = val (node t ! x)" if "x < length (node t)" "x \<noteq> i" for x
    using that by (simp add: t'_def)
  show "hsize t' = length (node t')" using ok len sz by (simp add: table_ok_def)
  show "nil_nodes_empty (node t')"
    unfolding nil_nodes_empty_def
  proof (intro allI impI)
    fix x assume x: "x < length (node t')" "key (node t' ! x) = LUA_T_NIL"
    with key [of x] len k have "x \<noteq> i" "key (node t ! x) = LUA_T_NIL" by auto
    with table_ok_nil [OF ok, of x] x len vl [of x] nxt [of x]
    show "val (node t' ! x) = LUA_T_NIL \<and> next (node t' ! x) = None" by simp
  qed
  show "keys_distinct (node t')"
    unfolding keys_distinct_def
  proof (intro allI impI)
    fix x y assume "x < length (node t')" "y < length (node t')"
      "key (node t' ! x) = key (node t' ! y) \<and> key (node t' ! x) \<noteq> LUA_T_NIL"
    with key len table_ok_distinct [OF ok, of x y] show "x = y" by auto
  qed
  fix x assume x: "x < length (node t')" "key (node t' ! x) \<noteq> LUA_T_NIL"
  with key len have r: "rooted t x" by (intro table_ok_rootedD [OF ok]) auto
  then obtain r xs where mp: "luaH_mainposition t (key (node t ! x)) = Inr r"
    and c: "chain (node t) (Some r) xs" and xi: "x \<in> set xs"
    and m: "\<forall>j\<in>set xs. luaH_mainposition t (key (node t ! j)) = Inr r"
    unfolding rooted_def by blast
  have "chain (node t') (Some r) xs = chain (node t) (Some r) xs"
    using len nxt chain_bound [OF c] by (intro chain_frame) auto
  with c have c': "chain (node t') (Some r) xs" by simp
  have "luaH_mainposition t' (key (node t' ! j)) = Inr r" if "j \<in> set xs" for j
    using key [OF chain_bound [OF c that]] m that mainposition_cong [OF sz] by simp
  with c' xi show "rooted t' x" unfolding rooted_def by blast
qed

subsection \<open>A new key in its free main position\<close>

lemma insert_at_free_ok:
  assumes ok: "table_ok t" and mp: "luaH_mainposition t k = Inr mp"
    and free: "key (node t ! mp) = LUA_T_NIL"
    and absent: "\<forall>i<length (node t). key (node t ! i) \<noteq> k"
    and t'_def: "t' = t\<lparr>node := (node t)[mp := (node t ! mp)\<lparr>key := k, val := v\<rparr>]\<rparr>"
  shows "table_ok t'"
proof (rule table_ok_intro)
  have len: "length (node t') = length (node t)" and sz: "hsize t' = hsize t"
    by (simp_all add: t'_def)
  from mainposition_bound [OF mp] ok have b: "mp < length (node t)" by (simp add: table_ok_def)
  from mp have nn: "k \<noteq> LUA_T_NIL" by (rule mainposition_not_nil)
  have at: "node t' ! mp = (node t ! mp)\<lparr>key := k, val := v\<rparr>"
    using b by (simp add: t'_def)
  have other: "node t' ! x = node t ! x" if "x \<noteq> mp" for x
    using that by (simp add: t'_def)
  show "hsize t' = length (node t')" using ok len sz by (simp add: table_ok_def)
  show "nil_nodes_empty (node t')"
    unfolding nil_nodes_empty_def
  proof (intro allI impI)
    fix x assume x: "x < length (node t')" "key (node t' ! x) = LUA_T_NIL"
    with at nn have "x \<noteq> mp" by auto
    with table_ok_nil [OF ok, of x] x len other [of x]
    show "val (node t' ! x) = LUA_T_NIL \<and> next (node t' ! x) = None" by simp
  qed
  show "keys_distinct (node t')"
    unfolding keys_distinct_def
  proof (intro allI impI)
    fix x y assume xy: "x < length (node t')" "y < length (node t')"
      "key (node t' ! x) = key (node t' ! y) \<and> key (node t' ! x) \<noteq> LUA_T_NIL"
    show "x = y"
    proof (cases "x = mp \<or> y = mp")
      case True
      with xy at other [of x] other [of y] absent len show ?thesis
        by (cases "x = mp"; cases "y = mp") auto
    next
      case False
      with xy other [of x] other [of y] len table_ok_distinct [OF ok, of x y] show ?thesis
        by auto
    qed
  qed
  fix x assume x: "x < length (node t')" "key (node t' ! x) \<noteq> LUA_T_NIL"
  show "rooted t' x"
  proof (cases "x = mp")
    case True
    from table_ok_nil [OF ok b free] at have "next (node t' ! mp) = None" by simp
    with b len have "chain (node t') (Some mp) [mp]" by simp
    moreover have "luaH_mainposition t' (key (node t' ! mp)) = Inr mp"
      using at mp mainposition_cong [OF sz] by simp
    ultimately show ?thesis using True unfolding rooted_def
      by (intro exI [of _ mp] exI [of _ "[mp]"]) simp
  next
    case False
    with x other [of x] len have r: "rooted t x" by (intro table_ok_rootedD [OF ok]) auto
    then obtain r where "luaH_mainposition t (key (node t ! x)) = Inr r"
      unfolding rooted_def by blast
    then have "\<forall>y<length (node t).
       luaH_mainposition t (key (node t ! y)) = luaH_mainposition t (key (node t ! x)) \<longrightarrow>
       node t' ! y = node t ! y"
    proof (intro allI impI)
      fix y assume "luaH_mainposition t (key (node t ! y)) = luaH_mainposition t (key (node t ! x))"
      with \<open>luaH_mainposition t (key (node t ! x)) = Inr r\<close>
      have "key (node t ! y) \<noteq> LUA_T_NIL" by (auto dest: mainposition_not_nil)
      with free have "y \<noteq> mp" by auto
      then show "node t' ! y = node t ! y" by (rule other)
    qed
    from rooted_frame [OF r sz len this] show ?thesis .
  qed
qed

subsection \<open>A new key chained after the node in its main position\<close>

lemma insert_chained_ok:
  assumes ok: "table_ok t" and mp: "luaH_mainposition t k = Inr mp"
    and root: "luaH_mainposition t (key (node t ! mp)) = Inr mp"
    and n: "n < length (node t)" and free: "key (node t ! n) = LUA_T_NIL"
    and absent: "\<forall>i<length (node t). key (node t ! i) \<noteq> k"
    and len: "length (node t') = length (node t)" and sz: "hsize t' = hsize t"
    and at_n: "node t' ! n = \<lparr>key = k, val = v, next = next (node t ! mp)\<rparr>"
    and at_mp: "node t' ! mp = (node t ! mp)\<lparr>next := Some n\<rparr>"
    and other: "\<And>x. x \<noteq> n \<Longrightarrow> x \<noteq> mp \<Longrightarrow> node t' ! x = node t ! x"
  shows "table_ok t'"
proof (rule table_ok_intro)
  from mainposition_bound [OF mp] ok have b: "mp < length (node t)" by (simp add: table_ok_def)
  from mp have nn: "k \<noteq> LUA_T_NIL" by (rule mainposition_not_nil)
  from root have rn: "key (node t ! mp) \<noteq> LUA_T_NIL" by (rule mainposition_not_nil)
  with free have neq: "n \<noteq> mp" by auto
  from table_ok_chain_at [OF ok b] root obtain ys where
    c: "chain (node t) (Some mp) (mp # ys)"
    and m: "\<forall>j\<in>set ys. luaH_mainposition t (key (node t ! j)) = Inr mp"
    by auto
  from chain_distinct [OF c] have mp_ys: "mp \<notin> set ys" by simp
  have n_ys: "n \<notin> set ys"
  proof
    assume "n \<in> set ys"
    with m free show False by (auto dest: mainposition_not_nil)
  qed
  have same_ys: "node t' ! x = node t ! x" if "x \<in> set ys" for x
    using that mp_ys n_ys by (intro other) auto
  from c have "chain (node t) (next (node t ! mp)) ys" by simp
  moreover have "chain (node t') (next (node t ! mp)) ys = chain (node t) (next (node t ! mp)) ys"
    using same_ys len by (intro chain_frame) auto
  ultimately have c': "chain (node t') (Some mp) (mp # n # ys)"
    using b n len at_n at_mp by simp
  have m': "\<forall>j\<in>set (mp # n # ys). luaH_mainposition t' (key (node t' ! j)) = Inr mp"
    using m same_ys at_n at_mp mp root mainposition_cong [OF sz] by auto
  show "hsize t' = length (node t')" using ok len sz by (simp add: table_ok_def)
  show "nil_nodes_empty (node t')"
    unfolding nil_nodes_empty_def
  proof (intro allI impI)
    fix x assume x: "x < length (node t')" "key (node t' ! x) = LUA_T_NIL"
    with at_n at_mp nn rn have "x \<noteq> n" "x \<noteq> mp" by auto
    with table_ok_nil [OF ok, of x] x len other [of x]
    show "val (node t' ! x) = LUA_T_NIL \<and> next (node t' ! x) = None" by simp
  qed
  have key_old: "key (node t' ! x) = key (node t ! x)" if "x \<noteq> n" for x
    using that at_mp other [of x] by (cases "x = mp") auto
  show "keys_distinct (node t')"
    unfolding keys_distinct_def
  proof (intro allI impI)
    fix x y assume xy: "x < length (node t')" "y < length (node t')"
      "key (node t' ! x) = key (node t' ! y) \<and> key (node t' ! x) \<noteq> LUA_T_NIL"
    show "x = y"
    proof (cases "x = n \<or> y = n")
      case True
      with xy at_n key_old [of x] key_old [of y] absent len show ?thesis
        by (cases "x = n"; cases "y = n") auto
    next
      case False
      with xy key_old [of x] key_old [of y] len table_ok_distinct [OF ok, of x y] show ?thesis
        by auto
    qed
  qed
  fix x assume x: "x < length (node t')" "key (node t' ! x) \<noteq> LUA_T_NIL"
  show "rooted t' x"
  proof (cases "x = n \<or> x = mp")
    case True
    with c' m' show ?thesis unfolding rooted_def
      by (intro exI [of _ mp] exI [of _ "mp # n # ys"]) auto
  next
    case False
    with x key_old [of x] len have r: "rooted t x" by (intro table_ok_rootedD [OF ok]) auto
    then obtain r xs where rx: "luaH_mainposition t (key (node t ! x)) = Inr r"
      and cx: "chain (node t) (Some r) xs" and xi: "x \<in> set xs"
      unfolding rooted_def by blast
    show ?thesis
    proof (cases "r = mp")
      case True
      with cx c chain_unique [of "node t" "Some mp" xs "mp # ys"] have "xs = mp # ys" by simp
      with xi have "x \<in> set (mp # n # ys)" by auto
      with c' m' show ?thesis unfolding rooted_def
        by (intro exI [of _ mp] exI [of _ "mp # n # ys"]) auto
    next
      case False
      have "\<forall>y<length (node t).
         luaH_mainposition t (key (node t ! y)) = luaH_mainposition t (key (node t ! x)) \<longrightarrow>
         node t' ! y = node t ! y"
      proof (intro allI impI)
        fix y assume "luaH_mainposition t (key (node t ! y)) = luaH_mainposition t (key (node t ! x))"
        with rx have y: "luaH_mainposition t (key (node t ! y)) = Inr r" by simp
        then have "key (node t ! y) \<noteq> LUA_T_NIL" by (rule mainposition_not_nil)
        with free have "y \<noteq> n" by auto
        moreover from y root False have "y \<noteq> mp" by auto
        ultimately show "node t' ! y = node t ! y" by (rule other)
      qed
      from rooted_frame [OF r sz len this] show ?thesis .
    qed
  qed
qed

subsection \<open>A new key displacing a node that is out of its main position\<close>

lemma chain_split_at:
  assumes "chain nodes (Some r) xs" "m \<in> set xs" "m \<noteq> r"
  shows "\<exists>ys p zs. xs = ys @ p # m # zs"
proof -
  from assms(2) obtain as zs where xs: "xs = as @ m # zs" by (auto simp: in_set_conv_decomp)
  from assms(1) have "hd xs = r" by (cases xs) auto
  with xs assms(3) have "as \<noteq> []" by (cases as) auto
  then obtain ys p where "as = ys @ [p]" by (cases as rule: rev_cases) auto
  with xs show ?thesis by auto
qed

lemma chain_split_next:
  assumes "chain nodes q (ys @ p # m # zs)"
  shows "next (nodes ! p) = Some m" "chain nodes (next (nodes ! m)) zs"
proof -
  from chain_suffix [OF assms] have "chain nodes (Some p) (p # m # zs)" by auto
  then show "next (nodes ! p) = Some m" "chain nodes (next (nodes ! m)) zs" by auto
qed

lemma insert_displacing_ok:
  assumes ok: "table_ok t" and mp: "luaH_mainposition t k = Inr mp"
    and oth: "luaH_mainposition t (key (node t ! mp)) = Inr othern" "othern \<noteq> mp"
    and n: "n < length (node t)" and free: "key (node t ! n) = LUA_T_NIL"
    and absent: "\<forall>i<length (node t). key (node t ! i) \<noteq> k"
    and c: "chain (node t) (Some othern) xs" and xs: "xs = ys @ prev # mp # zs"
    and len: "length (node t') = length (node t)" and sz: "hsize t' = hsize t"
    and at_prev: "node t' ! prev = (node t ! prev)\<lparr>next := Some n\<rparr>"
    and at_n: "node t' ! n = node t ! mp"
    and at_mp: "node t' ! mp = \<lparr>key = k, val = v, next = None\<rparr>"
    and other: "\<And>x. x \<noteq> n \<Longrightarrow> x \<noteq> mp \<Longrightarrow> x \<noteq> prev \<Longrightarrow> node t' ! x = node t ! x"
  shows "table_ok t'"
proof (rule table_ok_intro)
  let ?xs = "xs"
  let ?f = "\<lambda>x. if x = mp then n else x"
  from mainposition_bound [OF mp] ok have b: "mp < length (node t)" by (simp add: table_ok_def)
  from mp have nn: "k \<noteq> LUA_T_NIL" by (rule mainposition_not_nil)
  from oth(1) have rn: "key (node t ! mp) \<noteq> LUA_T_NIL" by (rule mainposition_not_nil)
  have mpx: "mp \<in> set ?xs" and prevx: "prev \<in> set xs" using xs by simp_all
  from table_ok_rootedD [OF ok b rn] obtain r xs0 where
    r0: "luaH_mainposition t (key (node t ! mp)) = Inr r" and c0: "chain (node t) (Some r) xs0"
    and m0: "\<forall>j\<in>set xs0. luaH_mainposition t (key (node t ! j)) = Inr r"
    unfolding rooted_def by blast
  from r0 oth(1) have "r = othern" by simp
  with c0 c have "xs0 = xs" by (intro chain_unique [of "node t" "Some othern"]) simp_all
  with m0 \<open>r = othern\<close>
  have m: "\<forall>j\<in>set ?xs. luaH_mainposition t (key (node t ! j)) = Inr othern" by simp
  have nx: "n \<notin> set ?xs"
  proof
    assume "n \<in> set ?xs"
    with m have "luaH_mainposition t (key (node t ! n)) = Inr othern" by blast
    with free show False by (auto dest: mainposition_not_nil)
  qed
  from chain_distinct [OF c] have d: "prev \<noteq> mp" "mp \<notin> set ys" "mp \<notin> set zs"
    unfolding xs by auto
  from nx have neq: "n \<noteq> mp" "n \<noteq> prev" using mpx prevx by auto
  from chain_split_next [OF c [unfolded xs]] have np: "next (node t ! prev) = Some mp"
    and cz: "chain (node t) (next (node t ! mp)) zs" by auto
  have nm: "next (node t ! mp) \<noteq> Some mp"
    using cz d(3) by (cases zs) auto
  have key_prev: "key (node t' ! prev) = key (node t ! prev)" using at_prev by simp
  from m prevx have "luaH_mainposition t (key (node t ! prev)) = Inr othern" by blast
  then have prev_nn: "key (node t ! prev) \<noteq> LUA_T_NIL" by (rule mainposition_not_nil)
  have step: "?f x < length (node t') \<and> next (node t' ! ?f x) = map_option ?f (next (node t ! x))"
    if x: "x \<in> set ?xs" for x
  proof (cases "x = mp")
    case True
    with n len at_n nm show ?thesis by (cases "next (node t ! mp)") auto
  next
    case False
    note xm = this
    show ?thesis
    proof (cases "x = prev")
      case True
      with xm chain_bound [OF c x] len at_prev np show ?thesis by simp
    next
      case False
      from x nx have "x \<noteq> n" by auto
      with xm False have same: "node t' ! x = node t ! x" by (intro other) auto
      have "next (node t ! x) \<noteq> Some mp"
      proof
        assume "next (node t ! x) = Some mp"
        from chain_pred_unique [OF c x prevx this np] False show False by simp
      qed
      with xm same chain_bound [OF c x] len show ?thesis
        by (cases "next (node t ! x)") auto
    qed
  qed
  from chain_map [OF c, of ?f "node t'"] step oth(2)
  have c': "chain (node t') (Some othern) (map ?f ?xs)" by simp
  have keyf: "key (node t' ! ?f x) = key (node t ! x)" if "x \<in> set ?xs" for x
  proof (cases "x = mp")
    case True
    with at_n show ?thesis by simp
  next
    case False
    from that nx have "x \<noteq> n" by auto
    with False other [of x] key_prev show ?thesis by (cases "x = prev") auto
  qed
  have m': "\<forall>j\<in>set (map ?f ?xs). luaH_mainposition t' (key (node t' ! j)) = Inr othern"
  proof
    fix j assume "j \<in> set (map ?f ?xs)"
    then obtain x where x: "x \<in> set ?xs" "j = ?f x" by auto
    with keyf [OF x(1)] m mainposition_cong [OF sz] show
      "luaH_mainposition t' (key (node t' ! j)) = Inr othern" by simp
  qed
  show "hsize t' = length (node t')" using ok len sz by (simp add: table_ok_def)
  have key_old: "key (node t' ! x) = key (node t ! x)" if "x \<noteq> n" "x \<noteq> mp" for x
    using that key_prev other [of x] by (cases "x = prev") auto
  show "nil_nodes_empty (node t')"
    unfolding nil_nodes_empty_def
  proof (intro allI impI)
    fix x assume x: "x < length (node t')" "key (node t' ! x) = LUA_T_NIL"
    with at_n at_mp nn rn have x1: "x \<noteq> n" "x \<noteq> mp" by auto
    with key_prev x prev_nn have "x \<noteq> prev" by auto
    with x1 table_ok_nil [OF ok, of x] x len other [of x]
    show "val (node t' ! x) = LUA_T_NIL \<and> next (node t' ! x) = None" by simp
  qed
  show "keys_distinct (node t')"
    unfolding keys_distinct_def
  proof (intro allI impI)
    fix x y assume xy: "x < length (node t')" "y < length (node t')"
      "key (node t' ! x) = key (node t' ! y) \<and> key (node t' ! x) \<noteq> LUA_T_NIL"
    define g where "g = (\<lambda>x. if x = n then mp else x)"
    have gk: "key (node t' ! z) = key (node t ! g z)" if "z \<noteq> mp" for z
      using that at_n key_old [of z] by (cases "z = n") (auto simp: g_def)
    have gb: "g z < length (node t)" if "z < length (node t)" for z
      using that b by (simp add: g_def)
    have gi: "g z = g z' \<Longrightarrow> z = z'" if "z \<noteq> mp" "z' \<noteq> mp" for z z'
      using that by (auto simp: g_def split: if_splits)
    show "x = y"
    proof (cases "x = mp \<or> y = mp")
      case True
      show ?thesis
      proof (rule ccontr)
        assume ne: "x \<noteq> y"
        define z where "z = (if x = mp then y else x)"
        have z: "z \<noteq> mp" "z < length (node t)" "key (node t' ! z) = k"
          using True ne xy at_mp len by (auto simp: z_def)
        with gk [of z] gb [of z] absent show False by auto
      qed
    next
      case False
      with xy gk [of x] gk [of y] gb [of x] gb [of y] len
        table_ok_distinct [OF ok, of "g x" "g y"]
      have "g x = g y" by auto
      with gi [of x y] False show ?thesis by simp
    qed
  qed
  fix x assume x: "x < length (node t')" "key (node t' ! x) \<noteq> LUA_T_NIL"
  show "rooted t' x"
  proof (cases "x = mp")
    case True
    have "chain (node t') (Some mp) [mp]" using b len at_mp by simp
    moreover have "luaH_mainposition t' (key (node t' ! mp)) = Inr mp"
      using at_mp mp mainposition_cong [OF sz] by simp
    ultimately show ?thesis using True unfolding rooted_def
      by (intro exI [of _ mp] exI [of _ "[mp]"]) simp
  next
    case False
    note xm = this
    show ?thesis
    proof (cases "x = n")
      case True
      with mpx have "x \<in> set (map ?f ?xs)" by (auto simp: image_iff)
      with c' m' show ?thesis unfolding rooted_def
        by (intro exI [of _ othern] exI [of _ "map ?f ?xs"]) auto
    next
      case False
      with xm x key_old [of x] len have r: "rooted t x"
        by (intro table_ok_rootedD [OF ok]) auto
      then obtain r xs1 where rx: "luaH_mainposition t (key (node t ! x)) = Inr r"
        and cx: "chain (node t) (Some r) xs1" and xi: "x \<in> set xs1"
        unfolding rooted_def by blast
      show ?thesis
      proof (cases "r = othern")
        case True
        with cx c chain_unique [of "node t" "Some othern" xs1 xs] have "xs1 = xs" by simp
        with xi have "?f x \<in> ?f ` set xs" by (intro imageI) simp
        with xm have "x \<in> set (map ?f ?xs)" by simp
        with c' m' show ?thesis unfolding rooted_def
          by (intro exI [of _ othern] exI [of _ "map ?f ?xs"]) auto
      next
        case False
        have "\<forall>y<length (node t).
           luaH_mainposition t (key (node t ! y)) = luaH_mainposition t (key (node t ! x)) \<longrightarrow>
           node t' ! y = node t ! y"
        proof (intro allI impI)
          fix y assume "luaH_mainposition t (key (node t ! y)) = luaH_mainposition t (key (node t ! x))"
          with rx have y: "luaH_mainposition t (key (node t ! y)) = Inr r" by simp
          then have "key (node t ! y) \<noteq> LUA_T_NIL" by (rule mainposition_not_nil)
          with free have "y \<noteq> n" by auto
          moreover from y oth(1) False have "y \<noteq> mp" by auto
          moreover from y m False prevx have "y \<noteq> prev" by auto
          ultimately show "node t' ! y = node t ! y" by (rule other)
        qed
        from rooted_frame [OF r sz len this] show ?thesis .
      qed
    qed
  qed
qed

lemma insert_lookup:
  assumes d: "keys_distinct nodes" and d': "keys_distinct nodes'" and k': "k' \<noteq> LUA_T_NIL"
    and absent: "\<forall>i<length nodes. key (nodes ! i) \<noteq> k"
    and p: "p < length nodes'" "key (nodes' ! p) = k" "val (nodes' ! p) = v"
    and g: "\<And>j. j < length nodes' \<Longrightarrow> j \<noteq> p \<Longrightarrow>
       g j < length nodes \<and> key (nodes' ! j) = key (nodes ! g j) \<and> val (nodes' ! j) = val (nodes ! g j)"
    and onto: "\<And>i. i < length nodes \<Longrightarrow> key (nodes ! i) \<noteq> LUA_T_NIL \<Longrightarrow>
       \<exists>j<length nodes'. j \<noteq> p \<and> g j = i"
  shows "lookup nodes' k' = (if k' = k then v else lookup nodes k')"
proof (cases "k' = k")
  case True
  with lookup_present [OF d' p(1,2)] k' p(3) show ?thesis by simp
next
  case False
  have "lookup nodes' k' = lookup nodes k'"
  proof (rule lookup_transfer [OF d d' k'])
    fix i assume i: "i < length nodes" "key (nodes ! i) = k'"
    with k' onto [of i] obtain j where j: "j < length nodes'" "j \<noteq> p" "g j = i" by auto
    with g [of j] i
    show "\<exists>j<length nodes'. key (nodes' ! j) = k' \<and> val (nodes' ! j) = val (nodes ! i)"
      by (intro exI [of _ j]) auto
  next
    fix j assume j: "j < length nodes'" "key (nodes' ! j) = k'"
    with False p(2) have "j \<noteq> p" by auto
    with g [of j] j
    show "\<exists>i<length nodes. key (nodes ! i) = k' \<and> val (nodes ! i) = val (nodes' ! j)"
      by (intro exI [of _ "g j"]) auto
  qed
  with False show ?thesis by simp
qed

lemma cursor_ok_step:
  assumes c: "cursor_ok t"
    and sz: "hsize t' = hsize t" and len: "length (node t') = length (node t)"
    and ff: "firstfree t' = firstfree t"
    and keep: "\<And>i. i < length (node t) \<Longrightarrow> key (node t ! i) \<noteq> LUA_T_NIL \<Longrightarrow>
       key (node t' ! i) \<noteq> LUA_T_NIL"
    and below: "\<And>i. i < firstfree t \<Longrightarrow> key (node t' ! i) \<noteq> LUA_T_NIL \<Longrightarrow>
       key (node t' ! i) = key (node t ! i) \<or> luaH_mainposition t (key (node t' ! i)) = Inr i"
  shows "cursor_ok t'"
  unfolding cursor_ok_def
proof (intro conjI allI impI)
  from c show "firstfree t' < length (node t')" using ff len by (simp add: cursor_ok_def)
next
  fix i assume "i < length (node t')" "firstfree t' < i"
  with c ff len keep [of i] show "key (node t' ! i) \<noteq> LUA_T_NIL" by (simp add: cursor_ok_def)
next
  fix i assume i: "i < firstfree t'" "key (node t' ! i) \<noteq> LUA_T_NIL"
  from below [of i] i ff consider "key (node t' ! i) = key (node t ! i)"
    | "luaH_mainposition t (key (node t' ! i)) = Inr i" by auto
  then show "luaH_mainposition t' (key (node t' ! i)) = Inr i"
  proof cases
    case 1
    with c i ff have "luaH_mainposition t (key (node t ! i)) = Inr i" by (simp add: cursor_ok_def)
    with 1 mainposition_cong [OF sz] show ?thesis by simp
  next
    case 2
    with mainposition_cong [OF sz] show ?thesis by simp
  qed
qed

subsection \<open>Counting nodes\<close>

lemma count_update:
  "i < length xs \<Longrightarrow>
   length (filter P (xs[i := x])) + (if P (xs ! i) then 1 else 0) =
   length (filter P xs) + (if P x then 1 else 0)"
proof -
  assume i: "i < length xs"
  have "length (filter P xs) = length (filter P (take i xs @ xs ! i # drop (Suc i) xs))"
    using id_take_nth_drop [OF i] by (rule arg_cong)
  also have "\<dots> =
      length (filter P (take i xs)) + (if P (xs ! i) then 1 else 0) + length (filter P (drop (Suc i) xs))"
    by simp
  finally have a: "length (filter P xs) =
      length (filter P (take i xs)) + (if P (xs ! i) then 1 else 0) + length (filter P (drop (Suc i) xs))" .
  from i have "xs[i := x] = take i xs @ x # drop (Suc i) xs" by (rule upd_conv_take_nth_drop)
  then have "length (filter P (xs[i := x])) =
      length (filter P (take i xs)) + (if P x then 1 else 0) + length (filter P (drop (Suc i) xs))"
    by simp
  with a show ?thesis by simp
qed

lemma nkeys_fill:
  "i < length nodes \<Longrightarrow> key (nodes ! i) = LUA_T_NIL \<Longrightarrow> key x \<noteq> LUA_T_NIL \<Longrightarrow>
   nkeys (nodes[i := x]) = Suc (nkeys nodes)"
  using count_update [of i nodes "\<lambda>n. key n \<noteq> LUA_T_NIL" x] by (simp add: nkeys_def)

lemma nkeys_keep:
  "i < length nodes \<Longrightarrow> (key x = LUA_T_NIL) = (key (nodes ! i) = LUA_T_NIL) \<Longrightarrow>
   nkeys (nodes[i := x]) = nkeys nodes"
  using count_update [of i nodes "\<lambda>n. key n \<noteq> LUA_T_NIL" x] by (simp add: nkeys_def)

lemma nkeys_full:
  "\<forall>i<length nodes. key (nodes ! i) \<noteq> LUA_T_NIL \<Longrightarrow> nkeys nodes = length nodes"
proof -
  assume "\<forall>i<length nodes. key (nodes ! i) \<noteq> LUA_T_NIL"
  then have "\<forall>n\<in>set nodes. key n \<noteq> LUA_T_NIL" by (auto simp: in_set_conv_nth)
  then have "filter (\<lambda>n. key n \<noteq> LUA_T_NIL) nodes = nodes" by (simp add: filter_id_conv)
  then show ?thesis by (simp add: nkeys_def)
qed

lemma nkeys_replicate: "nkeys (hashnodecreate n) = 0"
  by (simp add: nkeys_def hashnodecreate_def)

lemma node_fields_set:
  "(r::Node)\<lparr>next := x, key := k, val := v\<rparr> = \<lparr>key = k, val = v, next = x\<rparr>"
  by simp

lemma insert_pair_free:
  assumes "key (node t ! mp) = LUA_T_NIL"
  shows "insert_pair t k v mp = Inr (t\<lparr>node := (node t)[mp := (node t ! mp)\<lparr>key := k, val := v\<rparr>]\<rparr>)"
  using assms by (simp add: insert_pair_def)

lemma insert_pair_displace:
  assumes inv: "invariant t" and mp: "luaH_mainposition t k = Inr mp"
    and oth: "luaH_mainposition t (key (node t ! mp)) = Inr othern" "othern \<noteq> mp"
  shows "\<exists>prev ys zs. chain (node t) (Some othern) (ys @ prev # mp # zs) \<and>
     firstfree t < mp \<and> prev \<noteq> mp \<and> prev \<noteq> firstfree t \<and> prev < length (node t) \<and>
     insert_pair t k v mp =
       Inr (t\<lparr>node := (node t)[prev := (node t ! prev)\<lparr>next := Some (firstfree t)\<rparr>,
          firstfree t := node t ! mp, mp := \<lparr>key = k, val = v, next = None\<rparr>]\<rparr>)"
proof -
  from inv have ok: "table_ok t" and cur: "cursor_ok t"
    and free: "key (node t ! firstfree t) = LUA_T_NIL"
    by (simp_all add: invariant_def)
  define n where "n = firstfree t"
  from cur have nb: "n < length (node t)" by (simp add: cursor_ok_def n_def)
  from mainposition_bound [OF mp] ok have b: "mp < length (node t)" by (simp add: table_ok_def)
  from oth(1) have occupied: "key (node t ! mp) \<noteq> LUA_T_NIL" by (rule mainposition_not_nil)
  with free have neq: "n \<noteq> mp" by (auto simp: n_def)
  have lt: "n < mp"
  proof (rule ccontr)
    assume "\<not> n < mp"
    with neq have "mp < firstfree t" by (simp add: n_def)
    with cur occupied have "luaH_mainposition t (key (node t ! mp)) = Inr mp"
      by (simp add: cursor_ok_def)
    with oth show False by simp
  qed
  from table_ok_rootedD [OF ok b occupied] oth(1) obtain xs where
    c: "chain (node t) (Some othern) xs" and mpx: "mp \<in> set xs"
    unfolding rooted_def by auto
  from chain_split_at [OF c mpx] oth(2) obtain ys prev zs where xs: "xs = ys @ prev # mp # zs"
    by auto
  from chain_distinct [OF c] have pm: "prev \<noteq> mp" unfolding xs by auto
  from chain_bound [OF c, of prev] xs have pb: "prev < length (node t)" by simp
  have pnn: "prev \<noteq> n"
  proof
    assume "prev = n"
    from table_ok_nil [OF ok nb] free have "next (node t ! n) = None" by (simp add: n_def)
    moreover from chain_split_next [OF c [unfolded xs]] have "next (node t ! prev) = Some mp"
      by simp
    ultimately show False using \<open>prev = n\<close> by simp
  qed
  from find_previous_chain [OF c [unfolded xs] chain_length [OF c [unfolded xs]]]
  have fp: "find_previous (length (node t)) (node t) mp othern = Inr prev" .
  have "insert_pair t k v mp =
       Inr (t\<lparr>node := (node t)[prev := (node t ! prev)\<lparr>next := Some n\<rparr>,
          n := node t ! mp, mp := \<lparr>key = k, val = v, next = None\<rparr>]\<rparr>)"
    using lt occupied nb oth fp pm pnn neq b pb
    by (simp add: insert_pair_def move_colliding_def Let_def n_def [symmetric] node_fields_set)
  with c xs lt pm pnn pb show ?thesis unfolding n_def by blast
qed

lemma insert_pair_chain:
  assumes inv: "invariant t" and mp: "luaH_mainposition t k = Inr mp"
    and root: "luaH_mainposition t (key (node t ! mp)) = Inr mp"
  shows "insert_pair t k v mp =
       Inr (t\<lparr>node := (node t)[firstfree t := \<lparr>key = k, val = v, next = next (node t ! mp)\<rparr>,
          mp := (node t ! mp)\<lparr>next := Some (firstfree t)\<rparr>]\<rparr>)"
proof -
  from inv have ok: "table_ok t" and cur: "cursor_ok t"
    and free: "key (node t ! firstfree t) = LUA_T_NIL"
    by (simp_all add: invariant_def)
  define n where "n = firstfree t"
  from cur have nb: "n < length (node t)" by (simp add: cursor_ok_def n_def)
  from mainposition_bound [OF mp] ok have b: "mp < length (node t)" by (simp add: table_ok_def)
  from root have occupied: "key (node t ! mp) \<noteq> LUA_T_NIL" by (rule mainposition_not_nil)
  with free have neq: "n \<noteq> mp" by (auto simp: n_def)
  have upd: "(node t)[n := (node t ! n)\<lparr>next := next (node t ! mp)\<rparr>,
        mp := (node t ! mp)\<lparr>next := Some n\<rparr>,
        n := (node t ! n)\<lparr>next := next (node t ! mp), key := k, val := v\<rparr>] =
      (node t)[n := \<lparr>key = k, val = v, next = next (node t ! mp)\<rparr>,
        mp := (node t ! mp)\<lparr>next := Some n\<rparr>]"
    using neq by (simp add: list_update_swap [of n mp] node_fields_set)
  have "insert_pair t k v mp =
       Inr (t\<lparr>node := (node t)[n := \<lparr>key = k, val = v, next = next (node t ! mp)\<rparr>,
          mp := (node t ! mp)\<lparr>next := Some n\<rparr>]\<rparr>)"
    using occupied nb root neq b upd
    by (auto simp: insert_pair_def chain_new_def Let_def n_def [symmetric])
  then show ?thesis by (simp add: n_def)
qed

lemma insert_pair_ok:
  assumes inv: "invariant t" and mp: "luaH_mainposition t k = Inr mp"
    and absent: "\<forall>i<length (node t). key (node t ! i) \<noteq> k"
  shows "\<exists>t'. insert_pair t k v mp = Inr t' \<and> table_ok t' \<and> cursor_ok t' \<and>
     firstfree t' = firstfree t \<and> nkeys (node t') = Suc (nkeys (node t)) \<and>
     (\<exists>p<length (node t'). key (node t' ! p) = k \<and> val (node t' ! p) = v) \<and>
     (\<forall>k'. k' \<noteq> LUA_T_NIL \<longrightarrow> lookup (node t') k' = (if k' = k then v else lookup (node t) k'))"
proof -
  from inv have ok: "table_ok t" and cur: "cursor_ok t"
    and ffree: "key (node t ! firstfree t) = LUA_T_NIL"
    by (simp_all add: invariant_def)
  define n where "n = firstfree t"
  from cur have nb: "n < length (node t)" by (simp add: cursor_ok_def n_def)
  from mainposition_bound [OF mp] ok have b: "mp < length (node t)" by (simp add: table_ok_def)
  from mp have nn: "k \<noteq> LUA_T_NIL" by (rule mainposition_not_nil)
  note d = table_ok_keys_distinct [OF ok]
  show ?thesis
  proof (cases "key (node t ! mp) = LUA_T_NIL")
    case True
    define t' where "t' = t\<lparr>node := (node t)[mp := (node t ! mp)\<lparr>key := k, val := v\<rparr>]\<rparr>"
    have ip: "insert_pair t k v mp = Inr t'" using True by (simp add: insert_pair_def t'_def)
    have ok': "table_ok t'" using insert_at_free_ok [OF ok mp True absent t'_def] .
    have len: "length (node t') = length (node t)" and sz: "hsize t' = hsize t"
      and ff: "firstfree t' = firstfree t" by (simp_all add: t'_def)
    have at: "key (node t' ! mp) = k" "val (node t' ! mp) = v" using b by (simp_all add: t'_def)
    have other: "node t' ! x = node t ! x" if "x \<noteq> mp" for x
      using that by (simp add: t'_def)
    have cur': "cursor_ok t'"
    proof (rule cursor_ok_step [OF cur sz len ff])
      fix i assume "i < length (node t)" "key (node t ! i) \<noteq> LUA_T_NIL"
      with True other [of i] show "key (node t' ! i) \<noteq> LUA_T_NIL" by (cases "i = mp") auto
    next
      fix i assume "i < firstfree t" "key (node t' ! i) \<noteq> LUA_T_NIL"
      with at mp other [of i]
      show "key (node t' ! i) = key (node t ! i) \<or> luaH_mainposition t (key (node t' ! i)) = Inr i"
        by (cases "i = mp") auto
    qed
    have lk: "lookup (node t') k' = (if k' = k then v else lookup (node t) k')"
      if k': "k' \<noteq> LUA_T_NIL" for k'
    proof (rule insert_lookup [OF d table_ok_keys_distinct [OF ok'] k' absent, of mp _ "\<lambda>j. j"])
      show "mp < length (node t')" "key (node t' ! mp) = k" "val (node t' ! mp) = v"
        using b len at by simp_all
    next
      fix j assume "j < length (node t')" "j \<noteq> mp"
      with other [of j] len
      show "j < length (node t) \<and> key (node t' ! j) = key (node t ! j) \<and>
        val (node t' ! j) = val (node t ! j)" by simp
    next
      fix i assume "i < length (node t)" "key (node t ! i) \<noteq> LUA_T_NIL"
      with True len show "\<exists>j<length (node t'). j \<noteq> mp \<and> j = i" by auto
    qed
    have nk: "nkeys (node t') = Suc (nkeys (node t))"
      using nkeys_fill [OF b True, of "(node t ! mp)\<lparr>key := k, val := v\<rparr>"] nn
      by (simp add: t'_def)
    have pres: "\<exists>p<length (node t'). key (node t' ! p) = k \<and> val (node t' ! p) = v"
      using b len at by (intro exI [of _ mp]) simp
    from ip ok' cur' ff nk pres lk show ?thesis by blast
  next
    case False
    note occupied = this
    with ffree have neq: "n \<noteq> mp" by (auto simp: n_def)
    from table_ok_rootedD [OF ok b occupied] obtain othern xs where
      oth: "luaH_mainposition t (key (node t ! mp)) = Inr othern"
      and c: "chain (node t) (Some othern) xs" and mpx: "mp \<in> set xs"
      unfolding rooted_def by blast
    have free: "key (node t ! n) = LUA_T_NIL" using ffree by (simp add: n_def)
    show ?thesis
    proof (cases "n < mp \<and> othern \<noteq> mp")
      case True
      from chain_split_at [OF c mpx] True obtain ys prev zs where xs: "xs = ys @ prev # mp # zs"
        by auto
      from chain_distinct [OF c] have pm: "prev \<noteq> mp" unfolding xs by auto
      from chain_bound [OF c, of prev] xs have pb: "prev < length (node t)" by simp
      have pnn: "prev \<noteq> n"
      proof
        assume "prev = n"
        from chain_from_member [OF c, of prev] xs obtain ws where
          "chain (node t) (Some prev) (prev # ws)" by auto
        moreover from table_ok_nil [OF ok nb free] have "next (node t ! n) = None" by simp
        moreover from chain_split_next [OF c [unfolded xs]] have "next (node t ! prev) = Some mp"
          by simp
        ultimately show False using \<open>prev = n\<close> by simp
      qed
      from find_previous_chain [OF c [unfolded xs] chain_length [OF c [unfolded xs]]]
      have fp: "find_previous (length (node t)) (node t) mp othern = Inr prev" .
      define t' where "t' = t\<lparr>node := (node t)[prev := (node t ! prev)\<lparr>next := Some n\<rparr>,
          n := node t ! mp, mp := \<lparr>key = k, val = v, next = None\<rparr>]\<rparr>"
      have ip: "insert_pair t k v mp = Inr t'"
        using True occupied nb oth fp pm pnn neq b pb
        by (simp add: insert_pair_def move_colliding_def Let_def t'_def n_def [symmetric]
            node_fields_set)
      have len: "length (node t') = length (node t)" and sz: "hsize t' = hsize t"
        and ff: "firstfree t' = firstfree t" by (simp_all add: t'_def)
      have at_prev: "node t' ! prev = (node t ! prev)\<lparr>next := Some n\<rparr>"
        using pm pnn pb by (simp add: t'_def)
      have at_n: "node t' ! n = node t ! mp" using neq nb by (simp add: t'_def)
      have at_mp: "node t' ! mp = \<lparr>key = k, val = v, next = None\<rparr>" using b by (simp add: t'_def)
      have other: "node t' ! x = node t ! x" if "x \<noteq> n" "x \<noteq> mp" "x \<noteq> prev" for x
        using that by (simp add: t'_def)
      have ok': "table_ok t'"
        using insert_displacing_ok [OF ok mp oth _ nb free absent c xs len sz at_prev at_n at_mp other]
          True by simp
      have key_old: "key (node t' ! x) = key (node t ! x) \<and> val (node t' ! x) = val (node t ! x)"
        if "x \<noteq> n" "x \<noteq> mp" for x
        using that at_prev other [of x] by (cases "x = prev") auto
      have cur': "cursor_ok t'"
      proof (rule cursor_ok_step [OF cur sz len ff])
        fix i assume "i < length (node t)" "key (node t ! i) \<noteq> LUA_T_NIL"
        with at_mp nn free key_old [of i] show "key (node t' ! i) \<noteq> LUA_T_NIL"
          by (cases "i = mp"; cases "i = n") auto
      next
        fix i assume "i < firstfree t" "key (node t' ! i) \<noteq> LUA_T_NIL"
        with True key_old [of i]
        show "key (node t' ! i) = key (node t ! i) \<or> luaH_mainposition t (key (node t' ! i)) = Inr i"
          by (auto simp: n_def)
      qed
      have lk: "lookup (node t') k' = (if k' = k then v else lookup (node t) k')"
        if k': "k' \<noteq> LUA_T_NIL" for k'
      proof (rule insert_lookup [OF d table_ok_keys_distinct [OF ok'] k' absent, of mp _
            "\<lambda>j. if j = n then mp else j"])
        show "mp < length (node t')" "key (node t' ! mp) = k" "val (node t' ! mp) = v"
          using b len at_mp by simp_all
      next
        fix j assume "j < length (node t')" "j \<noteq> mp"
        with key_old [of j] len at_n b
        show "(if j = n then mp else j) < length (node t) \<and>
          key (node t' ! j) = key (node t ! (if j = n then mp else j)) \<and>
          val (node t' ! j) = val (node t ! (if j = n then mp else j))" by simp
      next
        fix i assume i: "i < length (node t)" "key (node t ! i) \<noteq> LUA_T_NIL"
        show "\<exists>j<length (node t'). j \<noteq> mp \<and> (if j = n then mp else j) = i"
        proof (cases "i = mp")
          case True
          with nb neq len show ?thesis by (intro exI [of _ n]) simp
        next
          case False
          with i free len show ?thesis by (intro exI [of _ i]) auto
        qed
      qed
      have "nkeys ((node t)[prev := (node t ! prev)\<lparr>next := Some n\<rparr>]) = nkeys (node t)"
        using pb by (simp add: nkeys_keep)
      moreover have "nkeys ((node t)[prev := (node t ! prev)\<lparr>next := Some n\<rparr>, n := node t ! mp]) =
          Suc (nkeys ((node t)[prev := (node t ! prev)\<lparr>next := Some n\<rparr>]))"
        using nb pnn free occupied by (intro nkeys_fill) simp_all
      moreover have "nkeys (node t') =
          nkeys ((node t)[prev := (node t ! prev)\<lparr>next := Some n\<rparr>, n := node t ! mp])"
        unfolding t'_def using b neq pm occupied nn by (simp add: nkeys_keep)
      ultimately have nk: "nkeys (node t') = Suc (nkeys (node t))" by simp
      have pres: "\<exists>p<length (node t'). key (node t' ! p) = k \<and> val (node t' ! p) = v"
        using b len at_mp by (intro exI [of _ mp]) simp
      from ip ok' cur' ff nk pres lk show ?thesis by blast
    next
      case False
      have root: "luaH_mainposition t (key (node t ! mp)) = Inr mp"
      proof (cases "n < mp")
        case True
        with False oth show ?thesis by simp
      next
        case False
        with neq have "mp < firstfree t" by (simp add: n_def)
        with cur occupied show ?thesis by (simp add: cursor_ok_def)
      qed
      define t' where "t' = t\<lparr>node := (node t)[n := \<lparr>key = k, val = v, next = next (node t ! mp)\<rparr>,
          mp := (node t ! mp)\<lparr>next := Some n\<rparr>]\<rparr>"
      have upd: "(node t)[n := (node t ! n)\<lparr>next := next (node t ! mp)\<rparr>,
            mp := (node t ! mp)\<lparr>next := Some n\<rparr>,
            n := (node t ! n)\<lparr>next := next (node t ! mp), key := k, val := v\<rparr>] =
          (node t)[n := \<lparr>key = k, val = v, next = next (node t ! mp)\<rparr>,
            mp := (node t ! mp)\<lparr>next := Some n\<rparr>]"
        using neq by (simp add: list_update_swap [of n mp] node_fields_set)
      have ip: "insert_pair t k v mp = Inr t'"
        using False occupied nb oth root neq b upd
        by (auto simp: insert_pair_def chain_new_def Let_def t'_def n_def [symmetric])
      have len: "length (node t') = length (node t)" and sz: "hsize t' = hsize t"
        and ff: "firstfree t' = firstfree t" by (simp_all add: t'_def)
      have at_n: "node t' ! n = \<lparr>key = k, val = v, next = next (node t ! mp)\<rparr>"
        using neq nb by (simp add: t'_def)
      have at_mp: "node t' ! mp = (node t ! mp)\<lparr>next := Some n\<rparr>" using b by (simp add: t'_def)
      have other: "node t' ! x = node t ! x" if "x \<noteq> n" "x \<noteq> mp" for x
        using that by (simp add: t'_def)
      have ok': "table_ok t'"
        using insert_chained_ok [OF ok mp root nb free absent len sz at_n at_mp other] by simp
      have key_old: "key (node t' ! x) = key (node t ! x) \<and> val (node t' ! x) = val (node t ! x)"
        if "x \<noteq> n" for x
        using that at_mp other [of x] by (cases "x = mp") auto
      have cur': "cursor_ok t'"
      proof (rule cursor_ok_step [OF cur sz len ff])
        fix i assume "i < length (node t)" "key (node t ! i) \<noteq> LUA_T_NIL"
        with free key_old [of i] show "key (node t' ! i) \<noteq> LUA_T_NIL"
          by (cases "i = n") auto
      next
        fix i assume "i < firstfree t" "key (node t' ! i) \<noteq> LUA_T_NIL"
        with key_old [of i]
        show "key (node t' ! i) = key (node t ! i) \<or> luaH_mainposition t (key (node t' ! i)) = Inr i"
          by (auto simp: n_def)
      qed
      have lk: "lookup (node t') k' = (if k' = k then v else lookup (node t) k')"
        if k': "k' \<noteq> LUA_T_NIL" for k'
      proof (rule insert_lookup [OF d table_ok_keys_distinct [OF ok'] k' absent, of n _ "\<lambda>j. j"])
        show "n < length (node t')" "key (node t' ! n) = k" "val (node t' ! n) = v"
          using nb len at_n by simp_all
      next
        fix j assume "j < length (node t')" "j \<noteq> n"
        with key_old [of j] len
        show "j < length (node t) \<and> key (node t' ! j) = key (node t ! j) \<and>
          val (node t' ! j) = val (node t ! j)" by simp
      next
        fix i assume "i < length (node t)" "key (node t ! i) \<noteq> LUA_T_NIL"
        with free len show "\<exists>j<length (node t'). j \<noteq> n \<and> j = i" by auto
      qed
      have "nkeys ((node t)[n := \<lparr>key = k, val = v, next = next (node t ! mp)\<rparr>]) =
          Suc (nkeys (node t))"
        using nkeys_fill [OF nb free] nn by simp
      moreover have "nkeys (node t') =
          nkeys ((node t)[n := \<lparr>key = k, val = v, next = next (node t ! mp)\<rparr>])"
        unfolding t'_def using b neq by (simp add: nkeys_keep)
      ultimately have nk: "nkeys (node t') = Suc (nkeys (node t))" by simp
      have pres: "\<exists>p<length (node t'). key (node t' ! p) = k \<and> val (node t' ! p) = v"
        using nb len at_n by (intro exI [of _ n]) simp
      from ip ok' cur' ff nk pres lk show ?thesis by blast
    qed
  qed
qed

subsection \<open>Scanning for a free node\<close>

lemma free_below_Some:
  "free_below nodes f = Some g \<Longrightarrow>
   g \<le> f \<and> key (nodes ! g) = LUA_T_NIL \<and> (\<forall>i. g < i \<and> i \<le> f \<longrightarrow> key (nodes ! i) \<noteq> LUA_T_NIL)"
proof (induction f)
  case 0
  then show ?case by (auto split: if_splits)
next
  case (Suc f)
  show ?case
  proof (cases "key (nodes ! Suc f) = LUA_T_NIL")
    case True
    with Suc.prems show ?thesis by auto
  next
    case False
    with Suc.prems have "free_below nodes f = Some g" by simp
    from Suc.IH [OF this] False show ?thesis by (auto simp: le_Suc_eq)
  qed
qed

lemma free_below_None:
  "free_below nodes f = None \<Longrightarrow> \<forall>i\<le>f. key (nodes ! i) \<noteq> LUA_T_NIL"
proof (induction f)
  case 0
  then show ?case by (auto split: if_splits)
next
  case (Suc f)
  then have "key (nodes ! Suc f) \<noteq> LUA_T_NIL" "free_below nodes f = None"
    by (auto split: if_splits)
  with Suc.IH show ?case by (auto simp: le_Suc_eq)
qed

subsection \<open>Loops with an invariant\<close>

lemma for_loop_append:
  "for_loop body (xs @ ys) s =
     (case for_loop body xs s of Inl e \<Rightarrow> Inl e | Inr s' \<Rightarrow> for_loop body ys s')"
  by (induction xs arbitrary: s) (auto split: sum.splits)

lemma for_loop_upto:
  assumes init: "I 0 s"
    and step: "\<And>i s. i < n \<Longrightarrow> I i s \<Longrightarrow> \<exists>s'. body i s = Inr s' \<and> I (Suc i) s'"
  shows "m \<le> n \<Longrightarrow> \<exists>s'. for_loop body [0..<m] s = Inr s' \<and> I m s'"
proof (induction m)
  case 0
  with init show ?case by simp
next
  case (Suc m)
  then obtain s1 where s1: "for_loop body [0..<m] s = Inr s1" "I m s1" by auto
  from Suc.prems have "m < n" by simp
  from step [OF this s1(2)] obtain s2 where s2: "body m s1 = Inr s2" "I (Suc m) s2" by blast
  have "for_loop body [0..<Suc m] s = for_loop body [m] s1"
    using s1(1) by (simp add: for_loop_append)
  with s2 show ?case by simp
qed

lemma for_loop_invariant:
  assumes "I 0 s" and "\<And>i s. i < n \<Longrightarrow> I i s \<Longrightarrow> \<exists>s'. body i s = Inr s' \<and> I (Suc i) s'"
  shows "\<exists>s'. for_loop body [0..<n] s = Inr s' \<and> I n s'"
  using for_loop_upto [of I s n body n] assms by simp

lemma rehash_first_cases:
  assumes "i < length nold" "length (node t) = hsize t" "0 < hsize t"
    and "val (nold ! i) \<noteq> LUA_T_NIL \<longrightarrow> hashvalue (key (nold ! i)) \<noteq> None"
  obtains (skip) "val (nold ! i) = LUA_T_NIL"
      "rehash_first i (nold, t) = Inr (nold[i := (nold ! i)\<lparr>next := None\<rparr>], t)"
    | (place) mp where "val (nold ! i) \<noteq> LUA_T_NIL"
      "luaH_mainposition t (key (nold ! i)) = Inr mp" "mp < hsize t"
      "key (node t ! mp) = LUA_T_NIL"
      "rehash_first i (nold, t) = Inr (nold[i := (nold ! i)\<lparr>next := None\<rparr>],
         t\<lparr>node := (node t)[mp := (node t ! mp)\<lparr>key := key (nold ! i), val := val (nold ! i)\<rparr>]\<rparr>)"
    | (mark) mp where "val (nold ! i) \<noteq> LUA_T_NIL"
      "luaH_mainposition t (key (nold ! i)) = Inr mp" "mp < hsize t"
      "key (node t ! mp) \<noteq> LUA_T_NIL"
      "rehash_first i (nold, t) = Inr (nold[i := (nold ! i)\<lparr>next := Some mp\<rparr>], t)"
proof (cases "val (nold ! i) = LUA_T_NIL")
  case True
  with assms(1) have "rehash_first i (nold, t) = Inr (nold[i := (nold ! i)\<lparr>next := None\<rparr>], t)"
    by (simp add: rehash_first_def)
  with True show ?thesis by (rule skip)
next
  case False
  with assms(4) mainposition_defined [OF _ assms(3)] obtain mp where
    mp: "luaH_mainposition t (key (nold ! i)) = Inr mp" by blast
  from mainposition_bound [OF mp] have b: "mp < hsize t" .
  show ?thesis
  proof (cases "key (node t ! mp) = LUA_T_NIL")
    case True
    with False mp b assms(1,2) have "rehash_first i (nold, t) =
        Inr (nold[i := (nold ! i)\<lparr>next := None\<rparr>],
         t\<lparr>node := (node t)[mp := (node t ! mp)\<lparr>key := key (nold ! i), val := val (nold ! i)\<rparr>]\<rparr>)"
      by (simp add: rehash_first_def Let_def)
    with False mp b True show ?thesis by (rule place)
  next
    case nonnil: False
    with False mp b assms(1,2) have
      "rehash_first i (nold, t) = Inr (nold[i := (nold ! i)\<lparr>next := Some mp\<rparr>], t)"
      by (simp add: rehash_first_def Let_def)
    with False mp b nonnil show ?thesis by (rule mark)
  qed
qed

lemma marked_take_Suc:
  "i < length xs \<Longrightarrow>
   marked (take (Suc i) xs) = marked (take i xs) + (if next (xs ! i) \<noteq> None then 1 else 0)"
  by (simp add: marked_def take_Suc_conv_app_nth)

lemma realuse_drop:
  "i < length xs \<Longrightarrow>
   realuse (drop i xs) = (if val (xs ! i) \<noteq> LUA_T_NIL then 1 else 0) + realuse (drop (Suc i) xs)"
  by (simp add: realuse_def Cons_nth_drop_Suc [symmetric])

lemma marked_drop:
  "i < length xs \<Longrightarrow>
   marked (drop i xs) = (if next (xs ! i) \<noteq> None then 1 else 0) + marked (drop (Suc i) xs)"
  by (simp add: marked_def Cons_nth_drop_Suc [symmetric])

lemma old_update:
  assumes i: "i < length nold" and n': "nold' = nold[i := (nold ! i)\<lparr>next := x\<rparr>]"
  shows "length nold' = length nold"
    and "\<And>j. j \<noteq> i \<Longrightarrow> nold' ! j = nold ! j"
    and "key (nold' ! i) = key (nold ! i)" "val (nold' ! i) = val (nold ! i)" "next (nold' ! i) = x"
    and "marked (take (Suc i) nold') = marked (take i nold) + (if x \<noteq> None then 1 else 0)"
    and "realuse (drop (Suc i) nold') = realuse (drop (Suc i) nold)"
proof -
  show len: "length nold' = length nold" by (simp add: n')
  show "\<And>j. j \<noteq> i \<Longrightarrow> nold' ! j = nold ! j" by (simp add: n')
  show nx: "key (nold' ! i) = key (nold ! i)" "val (nold' ! i) = val (nold ! i)" "next (nold' ! i) = x"
    using i by (simp_all add: n')
  have "take i nold' = take i nold" by (simp add: n')
  with marked_take_Suc [of i nold'] i len nx(3)
  show "marked (take (Suc i) nold') = marked (take i nold) + (if x \<noteq> None then 1 else 0)"
    by simp
  show "realuse (drop (Suc i) nold') = realuse (drop (Suc i) nold)" by (simp add: n')
qed

lemma old_kept_update:
  assumes "old_kept nold0 nold" "length nold' = length nold"
    "\<And>j. j \<noteq> i \<Longrightarrow> nold' ! j = nold ! j"
    "key (nold' ! i) = key (nold ! i)" "val (nold' ! i) = val (nold ! i)"
  shows "old_kept nold0 nold'"
  unfolding old_kept_def
proof (intro conjI allI impI)
  from assms(1,2) show "length nold' = length nold0" by (simp add: old_kept_def)
next
  fix j assume j: "j < length nold0"
  with assms(1) have "key (nold ! j) = key (nold0 ! j)" "val (nold ! j) = val (nold0 ! j)"
    by (simp_all add: old_kept_def)
  with assms(3) [of j] assms(4,5)
  show "key (nold' ! j) = key (nold0 ! j)" "val (nold' ! j) = val (nold0 ! j)"
    by (cases "j = i"; simp)+
qed

lemma copied_step:
  assumes c: "copied nold t i"
    and old: "\<And>j. j < i \<Longrightarrow> nold' ! j = nold ! j"
    and nn: "\<And>j. j < i \<Longrightarrow> val (nold ! j) \<noteq> LUA_T_NIL \<Longrightarrow> key (nold ! j) \<noteq> LUA_T_NIL"
    and len: "length (node t') = length (node t)"
    and keep: "\<And>m. m < length (node t) \<Longrightarrow> key (node t ! m) \<noteq> LUA_T_NIL \<Longrightarrow>
       node t' ! m = node t ! m"
    and fwd: "val (nold' ! i) \<noteq> LUA_T_NIL \<Longrightarrow> next (nold' ! i) = None \<Longrightarrow>
       \<exists>m<length (node t'). key (node t' ! m) = key (nold' ! i) \<and> val (node t' ! m) = val (nold' ! i)"
    and bwd: "\<And>m. m < length (node t) \<Longrightarrow> key (node t ! m) = LUA_T_NIL \<Longrightarrow>
       key (node t' ! m) \<noteq> LUA_T_NIL \<Longrightarrow>
       next (nold' ! i) = None \<and> val (nold' ! i) \<noteq> LUA_T_NIL \<and>
       key (nold' ! i) = key (node t' ! m) \<and> val (nold' ! i) = val (node t' ! m)"
  shows "copied nold' t' (Suc i)"
  unfolding copied_def
proof (intro conjI allI impI)
  fix j assume j: "j < Suc i" "val (nold' ! j) \<noteq> LUA_T_NIL \<and> next (nold' ! j) = None"
  show "\<exists>m<length (node t'). key (node t' ! m) = key (nold' ! j) \<and> val (node t' ! m) = val (nold' ! j)"
  proof (cases "j = i")
    case True
    with j fwd show ?thesis by simp
  next
    case False
    with j have ji: "j < i" by simp
    with c j old [OF ji] obtain m where m: "m < length (node t)"
      "key (node t ! m) = key (nold ! j)" "val (node t ! m) = val (nold ! j)"
      unfolding copied_def by auto
    from nn [OF ji] j old [OF ji] have "key (nold ! j) \<noteq> LUA_T_NIL" by simp
    with m keep [of m] have "node t' ! m = node t ! m" by simp
    with m len old [OF ji] show ?thesis by (intro exI [of _ m]) simp
  qed
next
  fix m assume m: "m < length (node t')" "key (node t' ! m) \<noteq> LUA_T_NIL"
  show "\<exists>j<Suc i. next (nold' ! j) = None \<and> val (nold' ! j) \<noteq> LUA_T_NIL \<and>
      key (nold' ! j) = key (node t' ! m) \<and> val (nold' ! j) = val (node t' ! m)"
  proof (cases "key (node t ! m) = LUA_T_NIL")
    case True
    with bwd [of m] m len show ?thesis by (intro exI [of _ i]) auto
  next
    case False
    with keep [of m] m len have same: "node t' ! m = node t ! m" by simp
    from c False m len obtain j where j: "j < i" "next (nold ! j) = None"
      "val (nold ! j) \<noteq> LUA_T_NIL" "key (nold ! j) = key (node t ! m)"
      "val (nold ! j) = val (node t ! m)"
      unfolding copied_def by auto
    with same old [of j] show ?thesis by (intro exI [of _ j]) simp
  qed
qed

lemma marks_step:
  assumes m: "marks_ok nold t i"
    and old: "\<And>j. j < i \<Longrightarrow> nold' ! j = nold ! j"
    and sz: "hsize t' = hsize t"
    and keep: "\<And>m. key (node t ! m) \<noteq> LUA_T_NIL \<Longrightarrow> key (node t' ! m) \<noteq> LUA_T_NIL"
    and new: "\<And>m. next (nold' ! i) = Some m \<Longrightarrow>
       val (nold' ! i) \<noteq> LUA_T_NIL \<and> luaH_mainposition t' (key (nold' ! i)) = Inr m \<and>
       key (node t' ! m) \<noteq> LUA_T_NIL"
  shows "marks_ok nold' t' (Suc i)"
  unfolding marks_ok_def
proof (intro allI impI)
  fix j m assume j: "j < Suc i" "next (nold' ! j) = Some m"
  show "val (nold' ! j) \<noteq> LUA_T_NIL \<and> luaH_mainposition t' (key (nold' ! j)) = Inr m \<and>
      key (node t' ! m) \<noteq> LUA_T_NIL"
  proof (cases "j = i")
    case True
    with j new show ?thesis by simp
  next
    case False
    with j have ji: "j < i" by simp
    with m j old [OF ji] have "val (nold ! j) \<noteq> LUA_T_NIL"
      "luaH_mainposition t (key (nold ! j)) = Inr m" "key (node t ! m) \<noteq> LUA_T_NIL"
      unfolding marks_ok_def by auto
    with keep [of m] old [OF ji] mainposition_cong [OF sz] show ?thesis by simp
  qed
qed

lemma direct_ok_place:
  assumes d: "direct_ok N t" and mp: "luaH_mainposition t k = Inr mp"
    and t': "t' = t\<lparr>node := (node t)[mp := (node t ! mp)\<lparr>key := k, val := v\<rparr>]\<rparr>"
  shows "direct_ok N t'"
  unfolding direct_ok_def
proof (intro conjI allI impI)
  from d show "hsize t' = N" "length (node t') = N" by (simp_all add: direct_ok_def t')
next
  fix m assume m: "m < N"
  from d have len: "length (node t) = N" and sz: "hsize t' = hsize t"
    by (simp_all add: direct_ok_def t')
  from mp have nn: "k \<noteq> LUA_T_NIL" by (rule mainposition_not_nil)
  from d m have o: "next (node t ! m) = None"
    "key (node t ! m) = LUA_T_NIL \<longrightarrow> val (node t ! m) = LUA_T_NIL"
    "key (node t ! m) \<noteq> LUA_T_NIL \<longrightarrow> luaH_mainposition t (key (node t ! m)) = Inr m"
    by (simp_all add: direct_ok_def)
  show "next (node t' ! m) = None" using o(1) m len by (cases "m = mp") (simp_all add: t')
  {
    assume "key (node t' ! m) = LUA_T_NIL"
    with o(2) m len nn show "val (node t' ! m) = LUA_T_NIL"
      by (cases "m = mp") (simp_all add: t')
  }
  {
    assume "key (node t' ! m) \<noteq> LUA_T_NIL"
    with o(3) m len mp mainposition_cong [OF sz]
    show "luaH_mainposition t' (key (node t' ! m)) = Inr m"
      by (cases "m = mp") (simp_all add: t')
  }
qed

lemma rehash_first_step:
  assumes i: "i < length nold0" and N: "0 < N"
    and hash: "\<forall>j<length nold0. val (nold0 ! j) \<noteq> LUA_T_NIL \<longrightarrow> hashvalue (key (nold0 ! j)) \<noteq> None"
    and inv: "first_inv nold0 N i s"
  shows "\<exists>s'. rehash_first i s = Inr s' \<and> first_inv nold0 N (Suc i) s'"
proof -
  obtain nold t where s: "s = (nold, t)" by (cases s)
  from inv have K: "old_kept nold0 nold" and D: "direct_ok N t" and F: "firstfree t = N - 1"
    and C: "copied nold t i" and M: "marks_ok nold t i"
    and Cnt: "nkeys (node t) + marked (take i nold) + realuse (drop i nold) \<le> realuse nold0"
    by (simp_all add: first_inv_def s)
  from K have len: "length nold = length nold0"
    and kv: "\<And>j. j < length nold0 \<Longrightarrow>
      key (nold ! j) = key (nold0 ! j) \<and> val (nold ! j) = val (nold0 ! j)"
    by (simp_all add: old_kept_def)
  from D have sz: "hsize t = N" and tl: "length (node t) = N" by (simp_all add: direct_ok_def)
  from i len have il: "i < length nold" by simp
  have h: "val (nold ! i) \<noteq> LUA_T_NIL \<longrightarrow> hashvalue (key (nold ! i)) \<noteq> None"
    using hash i kv [OF i] by simp
  have nn: "key (nold ! j) \<noteq> LUA_T_NIL" if "j < i" "val (nold ! j) \<noteq> LUA_T_NIL" for j
  proof -
    from that i have j: "j < length nold0" by simp
    with hash kv [OF j] that(2) have "hashvalue (key (nold ! j)) \<noteq> None" by simp
    then show ?thesis by auto
  qed
  have tl2: "length (node t) = hsize t" and N2: "0 < hsize t" using tl sz N by simp_all
  from il tl2 N2 h show ?thesis
  proof (cases rule: rehash_first_cases [of i nold t])
    case skip
    define nold' where "nold' = nold[i := (nold ! i)\<lparr>next := None\<rparr>]"
    note u = old_update [OF il nold'_def]
    have K': "old_kept nold0 nold'" using old_kept_update [OF K u(1,2,3,4)] by simp
    have C': "copied nold' t (Suc i)"
    proof (rule copied_step [OF C])
      show "\<And>j. j < i \<Longrightarrow> nold' ! j = nold ! j" using u(2) by simp
      show "\<And>j. j < i \<Longrightarrow> val (nold ! j) \<noteq> LUA_T_NIL \<Longrightarrow> key (nold ! j) \<noteq> LUA_T_NIL"
        using nn by simp
    qed (use skip u in simp_all)
    have M': "marks_ok nold' t (Suc i)"
    proof (rule marks_step [OF M])
      show "\<And>j. j < i \<Longrightarrow> nold' ! j = nold ! j" using u(2) by simp
    qed (use u in simp_all)
    have "nkeys (node t) + marked (take (Suc i) nold') + realuse (drop (Suc i) nold') \<le> realuse nold0"
      using Cnt u(6,7) realuse_drop [OF il] skip(1) by simp
    with K' D F C' M' skip(2) show ?thesis by (simp add: first_inv_def s nold'_def)
  next
    case (place mp)
    define nold' where "nold' = nold[i := (nold ! i)\<lparr>next := None\<rparr>]"
    define t' where
      "t' = t\<lparr>node := (node t)[mp := (node t ! mp)\<lparr>key := key (nold ! i), val := val (nold ! i)\<rparr>]\<rparr>"
    note u = old_update [OF il nold'_def]
    have K': "old_kept nold0 nold'" using old_kept_update [OF K u(1,2,3,4)] by simp
    have D': "direct_ok N t'" using direct_ok_place [OF D place(2) t'_def] .
    have F': "firstfree t' = N - 1" using F by (simp add: t'_def)
    from place(3) tl sz have mb: "mp < length (node t)" by simp
    have at: "key (node t' ! mp) = key (nold ! i)" "val (node t' ! mp) = val (nold ! i)"
      using mb by (simp_all add: t'_def)
    have other: "node t' ! m = node t ! m" if "m \<noteq> mp" for m using that by (simp add: t'_def)
    have tl': "length (node t') = length (node t)" and sz': "hsize t' = hsize t"
      by (simp_all add: t'_def)
    from place(2) have knn: "key (nold ! i) \<noteq> LUA_T_NIL" by (rule mainposition_not_nil)
    have C': "copied nold' t' (Suc i)"
    proof (rule copied_step [OF C _ _ tl'])
      show "\<And>j. j < i \<Longrightarrow> nold' ! j = nold ! j" using u(2) by simp
      show "\<And>j. j < i \<Longrightarrow> val (nold ! j) \<noteq> LUA_T_NIL \<Longrightarrow> key (nold ! j) \<noteq> LUA_T_NIL"
        using nn by simp
      show "\<And>m. m < length (node t) \<Longrightarrow> key (node t ! m) \<noteq> LUA_T_NIL \<Longrightarrow>
          node t' ! m = node t ! m"
      proof -
        fix m assume "key (node t ! m) \<noteq> LUA_T_NIL"
        with place(4) have "m \<noteq> mp" by auto
        then show "node t' ! m = node t ! m" by (rule other)
      qed
      show "\<exists>m<length (node t'). key (node t' ! m) = key (nold' ! i) \<and>
          val (node t' ! m) = val (nold' ! i)"
        using mb tl' at u(3,4) by (intro exI [of _ mp]) simp
      fix m assume a: "m < length (node t)" "key (node t ! m) = LUA_T_NIL"
        "key (node t' ! m) \<noteq> LUA_T_NIL"
      have "m = mp"
      proof (rule ccontr)
        assume "m \<noteq> mp"
        from other [OF this] a show False by simp
      qed
      with at u(3,4,5) place(1)
      show "next (nold' ! i) = None \<and> val (nold' ! i) \<noteq> LUA_T_NIL \<and>
        key (nold' ! i) = key (node t' ! m) \<and> val (nold' ! i) = val (node t' ! m)" by simp
    qed
    have M': "marks_ok nold' t' (Suc i)"
    proof (rule marks_step [OF M _ sz'])
      show "\<And>j. j < i \<Longrightarrow> nold' ! j = nold ! j" using u(2) by simp
      show "\<And>m. key (node t ! m) \<noteq> LUA_T_NIL \<Longrightarrow> key (node t' ! m) \<noteq> LUA_T_NIL"
      proof -
        fix m assume a: "key (node t ! m) \<noteq> LUA_T_NIL"
        with place(4) have "m \<noteq> mp" by auto
        with other [of m] a show "key (node t' ! m) \<noteq> LUA_T_NIL" by simp
      qed
    qed (use u in simp_all)
    have "nkeys (node t') = Suc (nkeys (node t))"
      using nkeys_fill [OF mb place(4), of "(node t ! mp)\<lparr>key := key (nold ! i), val := val (nold ! i)\<rparr>"]
        knn by (simp add: t'_def)
    then have "nkeys (node t') + marked (take (Suc i) nold') + realuse (drop (Suc i) nold') \<le> realuse nold0"
      using Cnt u(6,7) realuse_drop [OF il] place(1) by simp
    with K' D' F' C' M' place(5) show ?thesis by (simp add: first_inv_def s nold'_def t'_def)
  next
    case (mark mp)
    define nold' where "nold' = nold[i := (nold ! i)\<lparr>next := Some mp\<rparr>]"
    note u = old_update [OF il nold'_def]
    have K': "old_kept nold0 nold'" using old_kept_update [OF K u(1,2,3,4)] by simp
    have C': "copied nold' t (Suc i)"
    proof (rule copied_step [OF C])
      show "\<And>j. j < i \<Longrightarrow> nold' ! j = nold ! j" using u(2) by simp
      show "\<And>j. j < i \<Longrightarrow> val (nold ! j) \<noteq> LUA_T_NIL \<Longrightarrow> key (nold ! j) \<noteq> LUA_T_NIL"
        using nn by simp
    qed (use mark u in simp_all)
    have M': "marks_ok nold' t (Suc i)"
    proof (rule marks_step [OF M])
      show "\<And>j. j < i \<Longrightarrow> nold' ! j = nold ! j" using u(2) by simp
    qed (use u mark in simp_all)
    have "nkeys (node t) + marked (take (Suc i) nold') + realuse (drop (Suc i) nold') \<le> realuse nold0"
      using Cnt u(6,7) realuse_drop [OF il] mark(1) by simp
    with K' D F C' M' mark(5) show ?thesis by (simp add: first_inv_def s nold'_def)
  qed
qed

lemma mainposition_firstfree [simp]:
  "luaH_mainposition (t\<lparr>firstfree := f\<rparr>) k = luaH_mainposition t k"
  by (rule mainposition_cong) simp

lemma table_ok_firstfree [simp]: "table_ok (t\<lparr>firstfree := f\<rparr>) = table_ok t"
  by (simp add: table_ok_def rooted_def)

lemma cursor_move:
  assumes ok: "table_ok t" and cur: "cursor_ok t"
    and fb: "free_below (node t) g = Some f" and g: "g \<le> firstfree t"
    and full: "\<forall>i. g < i \<and> i \<le> firstfree t \<longrightarrow> key (node t ! i) \<noteq> LUA_T_NIL"
  shows "invariant (t\<lparr>firstfree := f\<rparr>)"
proof -
  from free_below_Some [OF fb] have f: "f \<le> g" "key (node t ! f) = LUA_T_NIL"
    "\<forall>i. f < i \<and> i \<le> g \<longrightarrow> key (node t ! i) \<noteq> LUA_T_NIL" by auto
  from cur have c: "firstfree t < length (node t)"
    "\<forall>i<length (node t). firstfree t < i \<longrightarrow> key (node t ! i) \<noteq> LUA_T_NIL"
    "\<forall>i<firstfree t. key (node t ! i) \<noteq> LUA_T_NIL \<longrightarrow> luaH_mainposition t (key (node t ! i)) = Inr i"
    by (simp_all add: cursor_ok_def)
  have "cursor_ok (t\<lparr>firstfree := f\<rparr>)"
    unfolding cursor_ok_def
  proof (intro conjI allI impI)
    show "firstfree (t\<lparr>firstfree := f\<rparr>) < length (node (t\<lparr>firstfree := f\<rparr>))"
      using f(1) g c(1) by simp
  next
    fix i assume i: "i < length (node (t\<lparr>firstfree := f\<rparr>))" "firstfree (t\<lparr>firstfree := f\<rparr>) < i"
    then have "f < i" "i < length (node t)" by simp_all
    then consider "i \<le> g" | "g < i" "i \<le> firstfree t" | "firstfree t < i" by linarith
    then show "key (node (t\<lparr>firstfree := f\<rparr>) ! i) \<noteq> LUA_T_NIL"
    proof cases
      case 1
      with f(3) \<open>f < i\<close> show ?thesis by simp
    next
      case 2
      with full show ?thesis by simp
    next
      case 3
      with c(2) \<open>i < length (node t)\<close> show ?thesis by simp
    qed
  next
    fix i assume "i < firstfree (t\<lparr>firstfree := f\<rparr>)"
      "key (node (t\<lparr>firstfree := f\<rparr>) ! i) \<noteq> LUA_T_NIL"
    with f(1) g c(3) have "luaH_mainposition t (key (node t ! i)) = Inr i" by simp
    then show "luaH_mainposition (t\<lparr>firstfree := f\<rparr>)
        (key (node (t\<lparr>firstfree := f\<rparr>) ! i)) = Inr i"
      by simp
  qed
  with ok f(2) show ?thesis by (simp add: invariant_def)
qed

lemma free_below_exists:
  assumes "nkeys nodes < length nodes"
    and "\<forall>i<length nodes. g < i \<longrightarrow> key (nodes ! i) \<noteq> LUA_T_NIL"
  shows "\<exists>f. free_below nodes g = Some f"
proof (rule ccontr)
  assume "\<nexists>f. free_below nodes g = Some f"
  then have "free_below nodes g = None" by auto
  from free_below_None [OF this] assms(2) have "\<forall>i<length nodes. key (nodes ! i) \<noteq> LUA_T_NIL"
    by (metis not_le_imp_less)
  from nkeys_full [OF this] assms(1) show False by simp
qed

lemma direct_ok_table_ok:
  assumes d: "direct_ok N t"
  shows "table_ok t"
proof (rule table_ok_intro)
  from d have sz: "hsize t = N" and len: "length (node t) = N"
    and all: "\<And>m. m < N \<Longrightarrow> next (node t ! m) = None \<and>
         (key (node t ! m) = LUA_T_NIL \<longrightarrow> val (node t ! m) = LUA_T_NIL) \<and>
         (key (node t ! m) \<noteq> LUA_T_NIL \<longrightarrow> luaH_mainposition t (key (node t ! m)) = Inr m)"
    by (simp_all add: direct_ok_def)
  show "hsize t = length (node t)" using sz len by simp
  show "nil_nodes_empty (node t)" unfolding nil_nodes_empty_def using all len by simp
  show "keys_distinct (node t)"
    unfolding keys_distinct_def
  proof (intro allI impI)
    fix i j assume ij: "i < length (node t)" "j < length (node t)"
      "key (node t ! i) = key (node t ! j) \<and> key (node t ! i) \<noteq> LUA_T_NIL"
    with all [of i] all [of j] len have "luaH_mainposition t (key (node t ! i)) = Inr i"
      "luaH_mainposition t (key (node t ! i)) = Inr j" by auto
    then show "i = j" by simp
  qed
  fix i assume i: "i < length (node t)" "key (node t ! i) \<noteq> LUA_T_NIL"
  with all [of i] len have "chain (node t) (Some i) [i]"
    "luaH_mainposition t (key (node t ! i)) = Inr i" by auto
  then show "rooted t i" unfolding rooted_def
    by (intro exI [of _ i] exI [of _ "[i]"]) simp
qed

lemma direct_ok_cursor_ok:
  assumes d: "direct_ok N t" and N: "0 < N" and f: "firstfree t = N - 1"
  shows "cursor_ok t"
  using assms by (auto simp: cursor_ok_def direct_ok_def)

lemma first_inv_init:
  assumes "0 < N"
  shows "first_inv nold0 N 0 (nold0, setnodevector t N)"
proof -
  let ?t = "setnodevector t N"
  have n: "node ?t ! m = \<lparr>key = LUA_T_NIL, val = LUA_T_NIL, next = None\<rparr>" if "m < N" for m
    using that by (simp add: setnodevector_def hashnodecreate_def)
  have l: "length (node ?t) = N" "hsize ?t = N" "firstfree ?t = N - 1"
    by (simp_all add: setnodevector_def hashnodecreate_def)
  have "old_kept nold0 nold0" by (simp add: old_kept_def)
  moreover have "direct_ok N ?t" using n l by (simp add: direct_ok_def)
  moreover have "copied nold0 ?t 0" using n l by (simp add: copied_def)
  moreover have "marks_ok nold0 ?t 0" by (simp add: marks_ok_def)
  moreover have "nkeys (node ?t) = 0" by (simp add: setnodevector_def nkeys_replicate)
  moreover have "marked (take 0 nold0) = 0" by (simp add: marked_def)
  ultimately show ?thesis using l(3) by (simp add: first_inv_def)
qed

lemma node_fields_set2:
  "(r::Node)\<lparr>key := k, val := v, next := x\<rparr> = \<lparr>key = k, val = v, next = x\<rparr>"
  by simp

lemma rehash_second_step:
  assumes i: "i < length nold" and kd: "keys_distinct nold"
    and nn: "\<forall>j<length nold. val (nold ! j) \<noteq> LUA_T_NIL \<longrightarrow> key (nold ! j) \<noteq> LUA_T_NIL"
    and inv: "second_inv nold R N i s"
  shows "\<exists>s'. rehash_second i s = Inr s' \<and> second_inv nold R N (Suc i) s'"
proof -
  obtain nold' t where s: "s = (nold', t)" by (cases s)
  from inv have same: "nold' = nold" and I: "invariant t" and M: "marks2 nold t i"
    and C: "copied2 nold t i" and Cnt: "nkeys (node t) + marked (drop i nold) \<le> R"
    and RN: "R < length (node t)" and hN: "hsize t = N"
    by (simp_all add: second_inv_def s)
  from C have fwd: "\<And>j. j < length nold \<Longrightarrow> val (nold ! j) \<noteq> LUA_T_NIL \<Longrightarrow>
      next (nold ! j) = None \<or> j < i \<Longrightarrow>
      \<exists>m<length (node t). key (node t ! m) = key (nold ! j) \<and> val (node t ! m) = val (nold ! j)"
    and bwd: "\<And>m. m < length (node t) \<Longrightarrow> key (node t ! m) \<noteq> LUA_T_NIL \<Longrightarrow>
      \<exists>j<length nold. (next (nold ! j) = None \<or> j < i) \<and> val (nold ! j) \<noteq> LUA_T_NIL \<and>
        key (nold ! j) = key (node t ! m) \<and> val (nold ! j) = val (node t ! m)"
    unfolding copied2_def by blast+
  show ?thesis
  proof (cases "next (nold ! i)")
    case None
    then have r: "rehash_second i s = Inr (nold, t)"
      using i by (simp add: rehash_second_def s same)
    have M': "marks2 nold t (Suc i)" using M by (simp add: marks2_def)
    have C': "copied2 nold t (Suc i)"
      unfolding copied2_def
    proof (intro conjI allI impI)
      fix j assume j: "j < length nold"
        "val (nold ! j) \<noteq> LUA_T_NIL \<and> (next (nold ! j) = None \<or> j < Suc i)"
      with None have "next (nold ! j) = None \<or> j < i" by (cases "j = i") auto
      with fwd [of j] j
      show "\<exists>m<length (node t). key (node t ! m) = key (nold ! j) \<and> val (node t ! m) = val (nold ! j)"
        by simp
    next
      fix m assume "m < length (node t)" "key (node t ! m) \<noteq> LUA_T_NIL"
      from bwd [OF this] obtain j where "j < length nold" "next (nold ! j) = None \<or> j < i"
        "val (nold ! j) \<noteq> LUA_T_NIL" "key (nold ! j) = key (node t ! m)"
        "val (nold ! j) = val (node t ! m)" by blast
      then show "\<exists>j<length nold. (next (nold ! j) = None \<or> j < Suc i) \<and>
          val (nold ! j) \<noteq> LUA_T_NIL \<and> key (nold ! j) = key (node t ! m) \<and>
          val (nold ! j) = val (node t ! m)"
        by (intro exI [of _ j]) auto
    qed
    have "nkeys (node t) + marked (drop (Suc i) nold) \<le> R"
      using Cnt marked_drop [OF i] None by simp
    with r I M' C' RN hN show ?thesis by (simp add: second_inv_def)
  next
    case (Some mp)
    define k where "k = key (nold ! i)"
    define v where "v = val (nold ! i)"
    define e where "e = firstfree t"
    from M i Some have vn: "v \<noteq> LUA_T_NIL" and mp: "luaH_mainposition t k = Inr mp"
      and root: "luaH_mainposition t (key (node t ! mp)) = Inr mp"
      unfolding marks2_def k_def v_def by auto
    from I have ok: "table_ok t" and cur: "cursor_ok t" and free: "key (node t ! e) = LUA_T_NIL"
      by (simp_all add: invariant_def e_def)
    from cur have eb: "e < length (node t)" by (simp add: cursor_ok_def e_def)
    from mainposition_bound [OF mp] ok have mb: "mp < length (node t)" by (simp add: table_ok_def)
    from root have rn: "key (node t ! mp) \<noteq> LUA_T_NIL" by (rule mainposition_not_nil)
    with free have neq: "e \<noteq> mp" by auto
    from mp have knn: "k \<noteq> LUA_T_NIL" by (rule mainposition_not_nil)
    have absent: "\<forall>m<length (node t). key (node t ! m) \<noteq> k"
    proof (intro allI impI notI)
      fix m assume m: "m < length (node t)" "key (node t ! m) = k"
      with knn bwd [of m] obtain j where j: "j < length nold" "next (nold ! j) = None \<or> j < i"
        "key (nold ! j) = k" by auto
      with keys_distinctD [OF kd j(1) i] knn have "j = i" by (simp add: k_def)
      with j(2) Some show False by simp
    qed
    define t1 where "t1 = t\<lparr>node := (node t)[e := \<lparr>key = k, val = v, next = next (node t ! mp)\<rparr>,
        mp := (node t ! mp)\<lparr>next := Some e\<rparr>]\<rparr>"
    define nodes1 where "nodes1 = (node t)[e := (node t ! e)\<lparr>key := k, val := v\<rparr>]"
    define nodes2 where "nodes2 = nodes1[e := (nodes1 ! e)\<lparr>next := next (nodes1 ! mp)\<rparr>]"
    define nodes3 where "nodes3 = nodes2[mp := (nodes2 ! mp)\<lparr>next := Some e\<rparr>]"
    have r0: "rehash_second i s =
      (if e = 0 then Inl (UndefinedBehaviour, t\<lparr>node := nodes3\<rparr>)
       else case free_below nodes3 (e - 1) of
              None \<Rightarrow> Inl (UndefinedBehaviour, t\<lparr>node := nodes3\<rparr>)
            | Some f \<Rightarrow> Inr (nold, t\<lparr>node := nodes3, firstfree := f\<rparr>))"
      unfolding nodes3_def nodes2_def nodes1_def k_def v_def e_def
      using i Some eb mb
      by (simp add: rehash_second_def s same Let_def e_def)
    have "nodes3 = node t1"
      using neq eb mb
      by (simp add: nodes3_def nodes2_def nodes1_def t1_def node_fields_set2)
    then have n3: "t\<lparr>node := nodes3\<rparr> = t1" "nodes3 = node t1" by (simp_all add: t1_def)
    have r: "rehash_second i s =
      (if e = 0 then Inl (UndefinedBehaviour, t1)
       else case free_below (node t1) (e - 1) of None \<Rightarrow> Inl (UndefinedBehaviour, t1)
            | Some f \<Rightarrow> Inr (nold, t1\<lparr>firstfree := f\<rparr>))"
      unfolding r0 n3(1) unfolding n3(2) ..
    have len: "length (node t1) = length (node t)" and sz: "hsize t1 = hsize t"
      and ff: "firstfree t1 = firstfree t" by (simp_all add: t1_def)
    have at_e: "node t1 ! e = \<lparr>key = k, val = v, next = next (node t ! mp)\<rparr>"
      using neq eb by (simp add: t1_def)
    have at_mp: "node t1 ! mp = (node t ! mp)\<lparr>next := Some e\<rparr>" using mb by (simp add: t1_def)
    have other: "node t1 ! x = node t ! x" if "x \<noteq> e" "x \<noteq> mp" for x
      using that by (simp add: t1_def)
    have ok1: "table_ok t1"
      using insert_chained_ok [OF ok mp root eb free absent len sz at_e at_mp other] by simp
    have key_old: "key (node t1 ! x) = key (node t ! x) \<and> val (node t1 ! x) = val (node t ! x)"
      if "x \<noteq> e" for x
      using that at_mp other [of x] by (cases "x = mp") auto
    have cur1: "cursor_ok t1"
    proof (rule cursor_ok_step [OF cur sz len ff])
      fix x assume "x < length (node t)" "key (node t ! x) \<noteq> LUA_T_NIL"
      with free key_old [of x] show "key (node t1 ! x) \<noteq> LUA_T_NIL"
        by (cases "x = e") auto
    next
      fix x assume "x < firstfree t" "key (node t1 ! x) \<noteq> LUA_T_NIL"
      with key_old [of x]
      show "key (node t1 ! x) = key (node t ! x) \<or> luaH_mainposition t (key (node t1 ! x)) = Inr x"
        by (auto simp: e_def)
    qed
    have "nkeys ((node t)[e := \<lparr>key = k, val = v, next = next (node t ! mp)\<rparr>]) = Suc (nkeys (node t))"
      using nkeys_fill [OF eb free] knn by simp
    moreover have "nkeys (node t1) =
        nkeys ((node t)[e := \<lparr>key = k, val = v, next = next (node t ! mp)\<rparr>])"
      unfolding t1_def using mb neq by (simp add: nkeys_keep)
    ultimately have nk: "nkeys (node t1) = Suc (nkeys (node t))" by simp
    from Cnt marked_drop [OF i] Some have Cnt': "nkeys (node t1) + marked (drop (Suc i) nold) \<le> R"
      using nk by simp
    with RN len have lt: "nkeys (node t1) < length (node t1)" by simp
    have ge: "key (node t1 ! x) \<noteq> LUA_T_NIL" if "x < length (node t1)" "e \<le> x" for x
    proof (cases "x = e")
      case True
      with at_e knn show ?thesis by simp
    next
      case False
      with that cur1 ff show ?thesis by (simp add: cursor_ok_def e_def)
    qed
    have e0: "e \<noteq> 0"
    proof
      assume "e = 0"
      with ge have "\<forall>x<length (node t1). key (node t1 ! x) \<noteq> LUA_T_NIL" by simp
      from nkeys_full [OF this] lt show False by simp
    qed
    have "\<exists>f. free_below (node t1) (e - 1) = Some f"
    proof (rule free_below_exists [OF lt], intro allI impI)
      fix x assume "x < length (node t1)" "e - 1 < x"
      with e0 ge [of x] show "key (node t1 ! x) \<noteq> LUA_T_NIL" by simp
    qed
    then obtain f where f: "free_below (node t1) (e - 1) = Some f" by blast
    define t2 where "t2 = t1\<lparr>firstfree := f\<rparr>"
    from r e0 f have r2: "rehash_second i s = Inr (nold, t2)" by (simp add: t2_def)
    have I2: "invariant t2"
      unfolding t2_def
    proof (rule cursor_move [OF ok1 cur1 f])
      show "e - 1 \<le> firstfree t1" using ff by (simp add: e_def)
      have ff': "firstfree t1 = e" using ff by (simp add: e_def)
      show "\<forall>x. e - 1 < x \<and> x \<le> firstfree t1 \<longrightarrow> key (node t1 ! x) \<noteq> LUA_T_NIL"
      proof (intro allI impI)
        fix x assume "e - 1 < x \<and> x \<le> firstfree t1"
        with ff' e0 have "x = e" by arith
        with at_e knn show "key (node t1 ! x) \<noteq> LUA_T_NIL" by simp
      qed
    qed
    have n2: "node t2 = node t1" and sz2: "hsize t2 = hsize t" by (simp_all add: t2_def sz)
    have M2: "marks2 nold t2 (Suc i)"
      unfolding marks2_def
    proof (intro allI impI)
      fix j m assume j: "j < length nold" "Suc i \<le> j" "next (nold ! j) = Some m"
      with M have a: "val (nold ! j) \<noteq> LUA_T_NIL" "luaH_mainposition t (key (nold ! j)) = Inr m"
        "luaH_mainposition t (key (node t ! m)) = Inr m"
        unfolding marks2_def by auto
      from a(3) have "key (node t ! m) \<noteq> LUA_T_NIL" by (rule mainposition_not_nil)
      with free have "m \<noteq> e" by auto
      with key_old [of m] a mainposition_cong [OF sz2] n2
      show "val (nold ! j) \<noteq> LUA_T_NIL \<and> luaH_mainposition t2 (key (nold ! j)) = Inr m \<and>
        luaH_mainposition t2 (key (node t2 ! m)) = Inr m" by simp
    qed
    have C2: "copied2 nold t2 (Suc i)"
      unfolding copied2_def
    proof (intro conjI allI impI)
      fix j assume j: "j < length nold"
        "val (nold ! j) \<noteq> LUA_T_NIL \<and> (next (nold ! j) = None \<or> j < Suc i)"
      show "\<exists>m<length (node t2). key (node t2 ! m) = key (nold ! j) \<and>
          val (node t2 ! m) = val (nold ! j)"
      proof (cases "j = i")
        case True
        with at_e eb len n2 show ?thesis by (intro exI [of _ e]) (simp add: k_def v_def)
      next
        case False
        with j have "next (nold ! j) = None \<or> j < i" by auto
        with fwd [of j] j obtain m where m: "m < length (node t)"
          "key (node t ! m) = key (nold ! j)" "val (node t ! m) = val (nold ! j)" by auto
        from nn j have "key (nold ! j) \<noteq> LUA_T_NIL" by simp
        with m free have "m \<noteq> e" by auto
        with key_old [of m] m len n2 show ?thesis by (intro exI [of _ m]) simp
      qed
    next
      fix m assume m: "m < length (node t2)" "key (node t2 ! m) \<noteq> LUA_T_NIL"
      show "\<exists>j<length nold. (next (nold ! j) = None \<or> j < Suc i) \<and>
          val (nold ! j) \<noteq> LUA_T_NIL \<and> key (nold ! j) = key (node t2 ! m) \<and>
          val (nold ! j) = val (node t2 ! m)"
      proof (cases "m = e")
        case True
        with at_e n2 i vn show ?thesis by (intro exI [of _ i]) (simp add: k_def v_def)
      next
        case False
        with key_old [of m] m n2 len have "m < length (node t)" "key (node t ! m) \<noteq> LUA_T_NIL"
          by simp_all
        from bwd [OF this] obtain j where "j < length nold" "next (nold ! j) = None \<or> j < i"
          "val (nold ! j) \<noteq> LUA_T_NIL" "key (nold ! j) = key (node t ! m)"
          "val (nold ! j) = val (node t ! m)" by blast
        with key_old [of m] False n2 show ?thesis by (intro exI [of _ j]) auto
      qed
    qed
    from Cnt' RN len n2 have "nkeys (node t2) + marked (drop (Suc i) nold) \<le> R"
      "R < length (node t2)" by simp_all
    with r2 I2 M2 C2 sz2 hN show ?thesis by (simp add: second_inv_def)
  qed
qed

lemma table_ok_hashable:
  assumes ok: "table_ok t" and j: "j < length (node t)" and v: "val (node t ! j) \<noteq> LUA_T_NIL"
  shows "key (node t ! j) \<noteq> LUA_T_NIL" "hashvalue (key (node t ! j)) \<noteq> None"
proof -
  from table_ok_nil [OF ok j] v show nn: "key (node t ! j) \<noteq> LUA_T_NIL" by auto
  from table_ok_rootedD [OF ok j nn] obtain r where
    "luaH_mainposition t (key (node t ! j)) = Inr r" unfolding rooted_def by blast
  then show "hashvalue (key (node t ! j)) \<noteq> None" by (rule mainposition_hashable)
qed

lemma rehash_ok:
  assumes ok: "table_ok t" and ru: "rounds_up redim"
  shows "\<exists>t'. rehash redim t = Inr t' \<and> invariant t' \<and> hsize t' = newsize redim t \<and>
     (\<forall>m<length (node t'). key (node t' ! m) \<noteq> LUA_T_NIL \<longrightarrow> val (node t' ! m) \<noteq> LUA_T_NIL) \<and>
     (\<forall>k. k \<noteq> LUA_T_NIL \<longrightarrow> lookup (node t') k = lookup (node t) k)"
proof -
  define nold0 where "nold0 = node t"
  define R where "R = realuse nold0"
  define N where "N = newsize redim t"
  define n where "n = length nold0"
  from ok have hs: "hsize t = n" by (simp add: table_ok_def n_def nold0_def)
  have N: "N = redim (R * 2)"
    by (simp add: N_def newsize_def hs n_def nold0_def R_def)
  from ru have N0: "0 < N" and N2: "R * 2 \<le> N" by (simp_all add: N rounds_up_def)
  then have RN: "R < N" by simp
  have hash: "\<forall>j<length nold0. val (nold0 ! j) \<noteq> LUA_T_NIL \<longrightarrow> hashvalue (key (nold0 ! j)) \<noteq> None"
    using table_ok_hashable(2) [OF ok] by (simp add: nold0_def)
  have nn0: "\<forall>j<length nold0. val (nold0 ! j) \<noteq> LUA_T_NIL \<longrightarrow> key (nold0 ! j) \<noteq> LUA_T_NIL"
    using table_ok_hashable(1) [OF ok] by (simp add: nold0_def)
  have kd0: "keys_distinct nold0" using table_ok_keys_distinct [OF ok] by (simp add: nold0_def)
  have "\<exists>s'. for_loop rehash_first [0..<n] (nold0, setnodevector t N) = Inr s' \<and>
      first_inv nold0 N n s'"
  proof (rule for_loop_invariant [where I = "first_inv nold0 N"])
    show "first_inv nold0 N 0 (nold0, setnodevector t N)" using first_inv_init [OF N0] .
  next
    fix i s assume "i < n" "first_inv nold0 N i s"
    then show "\<exists>s'. rehash_first i s = Inr s' \<and> first_inv nold0 N (Suc i) s'"
      using rehash_first_step [OF _ N0 hash] by (simp add: n_def)
  qed
  then obtain nold2 t2 where l1: "for_loop rehash_first [0..<n] (nold0, setnodevector t N) = Inr (nold2, t2)"
    and f1: "first_inv nold0 N n (nold2, t2)" by auto
  from f1 have K: "old_kept nold0 nold2" and D: "direct_ok N t2" and F: "firstfree t2 = N - 1"
    and C: "copied nold2 t2 n" and M: "marks_ok nold2 t2 n"
    and Cnt: "nkeys (node t2) + marked (take n nold2) + realuse (drop n nold2) \<le> R"
    by (simp_all add: first_inv_def R_def)
  from K have len2: "length nold2 = n"
    and kv: "\<And>j. j < n \<Longrightarrow> key (nold2 ! j) = key (nold0 ! j) \<and> val (nold2 ! j) = val (nold0 ! j)"
    by (simp_all add: old_kept_def n_def)
  from D have sz2: "hsize t2 = N" and tl2: "length (node t2) = N" by (simp_all add: direct_ok_def)
  have ok2: "table_ok t2" using direct_ok_table_ok [OF D] .
  have cur2: "cursor_ok t2" using direct_ok_cursor_ok [OF D N0 F] .
  from Cnt len2 have Cnt2: "nkeys (node t2) + marked nold2 \<le> R" by (simp add: realuse_def)
  with RN tl2 have lt: "nkeys (node t2) < length (node t2)" by simp
  have "\<exists>f. free_below (node t2) (firstfree t2) = Some f"
    using F tl2 N0 by (intro free_below_exists [OF lt]) auto
  then obtain f where f: "free_below (node t2) (firstfree t2) = Some f" by blast
  define t2' where "t2' = t2\<lparr>firstfree := f\<rparr>"
  have I2: "invariant t2'"
    unfolding t2'_def by (rule cursor_move [OF ok2 cur2 f]) auto
  have kd2: "keys_distinct nold2"
    unfolding keys_distinct_def
  proof (intro allI impI)
    fix i j assume "i < length nold2" "j < length nold2"
      "key (nold2 ! i) = key (nold2 ! j) \<and> key (nold2 ! i) \<noteq> LUA_T_NIL"
    with kv [of i] kv [of j] len2 keys_distinctD [OF kd0, of i j] show "i = j"
      by (auto simp: n_def)
  qed
  have nn2: "\<forall>j<length nold2. val (nold2 ! j) \<noteq> LUA_T_NIL \<longrightarrow> key (nold2 ! j) \<noteq> LUA_T_NIL"
    using nn0 kv len2 by (simp add: n_def)
  have M2: "marks2 nold2 t2' 0"
    unfolding marks2_def
  proof (intro allI impI)
    fix j m assume j: "j < length nold2" "next (nold2 ! j) = Some m"
    with M len2 have a: "val (nold2 ! j) \<noteq> LUA_T_NIL"
      "luaH_mainposition t2 (key (nold2 ! j)) = Inr m" "key (node t2 ! m) \<noteq> LUA_T_NIL"
      unfolding marks_ok_def by auto
    from mainposition_bound [OF a(2)] sz2 have "m < N" by simp
    with D a(3) have "luaH_mainposition t2 (key (node t2 ! m)) = Inr m"
      by (simp add: direct_ok_def)
    with a show "val (nold2 ! j) \<noteq> LUA_T_NIL \<and> luaH_mainposition t2' (key (nold2 ! j)) = Inr m \<and>
        luaH_mainposition t2' (key (node t2' ! m)) = Inr m"
      by (simp add: t2'_def)
  qed
  have C2: "copied2 nold2 t2' 0"
    using C len2 unfolding copied2_def copied_def t2'_def by simp
  have s0: "second_inv nold2 R N 0 (nold2, t2')"
    using I2 M2 C2 Cnt2 RN tl2 sz2 by (simp add: second_inv_def t2'_def)
  have "\<exists>s'. for_loop rehash_second [0..<n] (nold2, t2') = Inr s' \<and> second_inv nold2 R N n s'"
  proof (rule for_loop_invariant [where I = "second_inv nold2 R N"])
    show "second_inv nold2 R N 0 (nold2, t2')" by (rule s0)
  next
    fix i s assume "i < n" "second_inv nold2 R N i s"
    then show "\<exists>s'. rehash_second i s = Inr s' \<and> second_inv nold2 R N (Suc i) s'"
      using rehash_second_step [OF _ kd2 nn2] len2 by simp
  qed
  then obtain nold3 t3 where l2: "for_loop rehash_second [0..<n] (nold2, t2') = Inr (nold3, t3)"
    and f2: "second_inv nold2 R N n (nold3, t3)" by auto
  from f2 have I3: "invariant t3" and h3: "hsize t3 = N" and C3: "copied2 nold2 t3 n"
    by (simp_all add: second_inv_def)
  have r: "rehash redim t = Inr t3"
    using l1 f l2 F tl2 N0
    by (simp add: rehash_def Let_def hs N_def [symmetric] nold0_def [symmetric] t2'_def)
  from I3 have ok3: "table_ok t3" by (simp add: invariant_def)
  have lk: "lookup (node t3) k = lookup (node t) k" if k: "k \<noteq> LUA_T_NIL" for k
  proof (rule lookup_transfer [OF table_ok_keys_distinct [OF ok] table_ok_keys_distinct [OF ok3] k])
    fix i assume i: "i < length (node t)" "key (node t ! i) = k" "val (node t ! i) \<noteq> LUA_T_NIL"
    then have "i < length nold2" "val (nold2 ! i) \<noteq> LUA_T_NIL" "i < n"
      using kv [of i] len2 by (simp_all add: n_def nold0_def)
    with C3 obtain m where "m < length (node t3)" "key (node t3 ! m) = key (nold2 ! i)"
      "val (node t3 ! m) = val (nold2 ! i)" unfolding copied2_def by blast
    with kv [of i] i show "\<exists>j<length (node t3). key (node t3 ! j) = k \<and>
        val (node t3 ! j) = val (node t ! i)"
      by (intro exI [of _ m]) (simp add: n_def nold0_def)
  next
    fix j assume j: "j < length (node t3)" "key (node t3 ! j) = k"
    with k C3 obtain i where i: "i < length nold2" "key (nold2 ! i) = key (node t3 ! j)"
      "val (nold2 ! i) = val (node t3 ! j)" unfolding copied2_def by blast
    with kv [of i] len2 j show "\<exists>i<length (node t). key (node t ! i) = k \<and>
        val (node t ! i) = val (node t3 ! j)"
      by (intro exI [of _ i]) (simp add: n_def nold0_def)
  qed
  have lv: "\<forall>m<length (node t3). key (node t3 ! m) \<noteq> LUA_T_NIL \<longrightarrow> val (node t3 ! m) \<noteq> LUA_T_NIL"
  proof (intro allI impI)
    fix m assume "m < length (node t3)" "key (node t3 ! m) \<noteq> LUA_T_NIL"
    with C3 obtain j where "val (nold2 ! j) \<noteq> LUA_T_NIL" "val (nold2 ! j) = val (node t3 ! m)"
      unfolding copied2_def by blast
    then show "val (node t3 ! m) \<noteq> LUA_T_NIL" by simp
  qed
  from r I3 h3 lk lv show ?thesis by (simp add: N_def)
qed

lemma invariant_size: "invariant t \<Longrightarrow> 0 < hsize t \<and> hsize t = length (node t)"
  by (auto simp: invariant_def cursor_ok_def table_ok_def)

lemma luaH_set_present:
  assumes inv: "invariant t" and i: "i < length (node t)" and k: "key (node t ! i) = k"
    and h: "hashvalue k \<noteq> None"
  shows "luaH_set redim t k v = Inr (t\<lparr>node := (node t)[i := (node t ! i)\<lparr>val := v\<rparr>]\<rparr>)"
proof -
  from inv have ok: "table_ok t" by (simp add: invariant_def)
  from invariant_size [OF inv] mainposition_defined [OF h] obtain mp where
    mp: "luaH_mainposition t k = Inr mp" by blast
  from mainposition_bound [OF mp] invariant_size [OF inv] have b: "mp < length (node t)" by simp
  from table_ok_chain_at [OF ok b] obtain ys where c: "chain (node t) (Some mp) (mp # ys)"
    by blast
  from set_loop_chain [OF c chain_length [OF c]] find_key_present [OF ok mp c i k]
  have "set_loop (length (node t)) t k v mp =
      Inr (Some (t\<lparr>node := (node t)[i := (node t ! i)\<lparr>val := v\<rparr>]\<rparr>))" by simp
  with mp show ?thesis by (simp add: luaH_set_def)
qed

lemma luaH_set_absent:
  assumes inv: "invariant t" and absent: "\<forall>i<length (node t). key (node t ! i) \<noteq> k"
    and mp: "luaH_mainposition t k = Inr mp"
  shows "luaH_set redim t k v =
     (case insert_pair t k v mp of Inl e \<Rightarrow> Inl e | Inr t' \<Rightarrow> check_free redim t')"
proof -
  from inv have ok: "table_ok t" by (simp add: invariant_def)
  from mainposition_bound [OF mp] invariant_size [OF inv] have b: "mp < length (node t)" by simp
  from table_ok_chain_at [OF ok b] obtain ys where c: "chain (node t) (Some mp) (mp # ys)"
    by blast
  from set_loop_chain [OF c chain_length [OF c]] find_key_absent [OF c absent]
  have "set_loop (length (node t)) t k v mp = Inr None" by simp
  with mp show ?thesis by (simp add: luaH_set_def)
qed

lemma overwrite_invariant:
  assumes inv: "invariant t" and i: "i < length (node t)" and k: "key (node t ! i) = k"
    and nn: "k \<noteq> LUA_T_NIL"
    and t': "t' = t\<lparr>node := (node t)[i := (node t ! i)\<lparr>val := v\<rparr>]\<rparr>"
  shows "invariant t'"
    and "\<And>k'. k' \<noteq> LUA_T_NIL \<Longrightarrow> lookup (node t') k' = (if k' = k then v else lookup (node t) k')"
proof -
  from inv have ok: "table_ok t" and cur: "cursor_ok t"
    and free: "key (node t ! firstfree t) = LUA_T_NIL" by (simp_all add: invariant_def)
  from k nn have kn: "key (node t ! i) \<noteq> LUA_T_NIL" by simp
  have ok': "table_ok t'" using overwrite_ok [OF ok i kn t'] .
  have len: "length (node t') = length (node t)" and sz: "hsize t' = hsize t"
    and ff: "firstfree t' = firstfree t" by (simp_all add: t')
  have key: "key (node t' ! x) = key (node t ! x)" for x
    using i by (cases "x = i") (simp_all add: t')
  have vl: "val (node t' ! x) = val (node t ! x)" if "x \<noteq> i" for x
    using that by (simp add: t')
  have vi: "val (node t' ! i) = v" using i by (simp add: t')
  have cur': "cursor_ok t'"
    by (rule cursor_ok_step [OF cur sz len ff]) (simp_all add: key)
  from ok' cur' free key ff show "invariant t'" by (simp add: invariant_def)
  fix k' :: TObject assume k': "k' \<noteq> LUA_T_NIL"
  show "lookup (node t') k' = (if k' = k then v else lookup (node t) k')"
  proof (cases "k' = k")
    case True
    have "lookup (node t') k = val (node t' ! i)"
      using i len key [of i] k nn
      by (intro lookup_present [OF table_ok_keys_distinct [OF ok']]) simp_all
    with vi True show ?thesis by simp
  next
    case False
    have "lookup (node t') k' = lookup (node t) k'"
    proof (rule lookup_transfer [OF table_ok_keys_distinct [OF ok] table_ok_keys_distinct [OF ok'] k'])
      fix j assume j: "j < length (node t)" "key (node t ! j) = k'"
      with False k have "j \<noteq> i" by auto
      with j key [of j] vl [of j] len
      show "\<exists>m<length (node t'). key (node t' ! m) = k' \<and> val (node t' ! m) = val (node t ! j)"
        by (intro exI [of _ j]) simp
    next
      fix j assume j: "j < length (node t')" "key (node t' ! j) = k'"
      with False k key [of j] have "j \<noteq> i" by auto
      with j key [of j] vl [of j] len
      show "\<exists>m<length (node t). key (node t ! m) = k' \<and> val (node t ! m) = val (node t' ! j)"
        by (intro exI [of _ j]) simp
    qed
    with False show ?thesis by simp
  qed
qed

lemma check_free_ok:
  assumes ok: "table_ok t" and cur: "cursor_ok t" and ru: "rounds_up redim"
  shows "\<exists>t'. check_free redim t = Inr t' \<and> invariant t' \<and>
     (\<forall>k. k \<noteq> LUA_T_NIL \<longrightarrow> lookup (node t') k = lookup (node t) k)"
proof -
  from cur have b: "firstfree t < length (node t)" by (simp add: cursor_ok_def)
  show ?thesis
  proof (cases "free_below (node t) (firstfree t)")
    case (Some f)
    have "invariant (t\<lparr>firstfree := f\<rparr>)" by (rule cursor_move [OF ok cur Some]) auto
    with Some b show ?thesis by (simp add: check_free_def)
  next
    case None
    have "table_ok (t\<lparr>firstfree := 0\<rparr>)" using ok by simp
    from rehash_ok [OF this ru] None b show ?thesis by (auto simp: check_free_def)
  qed
qed

lemma luaH_set_ok:
  assumes inv: "invariant t" and ru: "rounds_up redim" and h: "hashvalue k \<noteq> None"
  shows "\<exists>t'. luaH_set redim t k v = Inr t' \<and> invariant t' \<and>
     (\<forall>k'. k' \<noteq> LUA_T_NIL \<longrightarrow> lookup (node t') k' = (if k' = k then v else lookup (node t) k'))"
proof (cases "\<exists>i<length (node t). key (node t ! i) = k")
  case True
  then obtain i where i: "i < length (node t)" "key (node t ! i) = k" by blast
  from h have nn: "k \<noteq> LUA_T_NIL" by auto
  from luaH_set_present [OF inv i h] overwrite_invariant [OF inv i nn refl]
  show ?thesis by simp
next
  case False
  then have absent: "\<forall>i<length (node t). key (node t ! i) \<noteq> k" by blast
  from invariant_size [OF inv] mainposition_defined [OF h] obtain mp where
    mp: "luaH_mainposition t k = Inr mp" by blast
  from insert_pair_ok [OF inv mp absent, of v] obtain t1 where
    ip: "insert_pair t k v mp = Inr t1" and ok1: "table_ok t1" and cur1: "cursor_ok t1"
    and lk1: "\<forall>k'. k' \<noteq> LUA_T_NIL \<longrightarrow> lookup (node t1) k' = (if k' = k then v else lookup (node t) k')"
    by blast
  from check_free_ok [OF ok1 cur1 ru] obtain t' where
    cf: "check_free redim t1 = Inr t'" and inv': "invariant t'"
    and lk': "\<forall>k. k \<noteq> LUA_T_NIL \<longrightarrow> lookup (node t') k = lookup (node t1) k" by blast
  from luaH_set_absent [OF inv absent mp] ip cf have "luaH_set redim t k v = Inr t'" by simp
  with inv' lk1 lk' show ?thesis by simp
qed

lemma luaH_new_invariant:
  assumes "rounds_up redim"
  shows "invariant (luaH_new redim n)" and "lookup (node (luaH_new redim n)) k = LUA_T_NIL"
proof -
  let ?N = "redim (n + 1)"
  let ?t = "luaH_new redim n"
  from assms have N: "0 < ?N" by (simp add: rounds_up_def)
  have nd: "node ?t ! m = \<lparr>key = LUA_T_NIL, val = LUA_T_NIL, next = None\<rparr>" if "m < ?N" for m
    using that by (simp add: luaH_new_def setnodevector_def hashnodecreate_def)
  have l: "length (node ?t) = ?N" "hsize ?t = ?N" "firstfree ?t = ?N - 1"
    by (simp_all add: luaH_new_def setnodevector_def hashnodecreate_def)
  have d: "direct_ok ?N ?t" using nd l by (simp add: direct_ok_def)
  from direct_ok_table_ok [OF d] direct_ok_cursor_ok [OF d N l(3)] nd [of "?N - 1"] N l(3)
  show "invariant ?t" by (simp add: invariant_def)
  have "\<forall>i<length (node ?t). val (node ?t ! i) = LUA_T_NIL" using nd l by simp
  then have a: "\<forall>x\<in>set (node ?t). val x = LUA_T_NIL" by (auto simp: in_set_conv_nth)
  show "lookup (node ?t) k = LUA_T_NIL"
  proof (cases "find (\<lambda>n. key n = k) (node ?t)")
    case None
    then show ?thesis by (simp add: lookup_def)
  next
    case (Some x)
    then have "x \<in> set (node ?t)" by (auto simp: find_Some_iff)
    with a Some show ?thesis by (simp add: lookup_def)
  qed
qed

lemma luaH_set_hashable: "luaH_set redim t k v = Inr t' \<Longrightarrow> hashvalue k \<noteq> None"
  by (auto simp: luaH_set_def luaH_mainposition_def split: option.splits)

lemma reachable_invariant:
  assumes ru: "rounds_up redim"
  shows "reachable redim t \<Longrightarrow> invariant t"
proof (induction rule: reachable.induct)
  case (new n)
  show ?case using luaH_new_invariant(1) [OF ru] .
next
  case (set t k v t')
  from luaH_set_ok [OF set.IH ru luaH_set_hashable [OF set.hyps(2)], of v] set.hyps(2)
  show ?case by auto
qed

lemma sets_reachable:
  "reachable redim t \<Longrightarrow> sets redim t ops = Inr t' \<Longrightarrow> reachable redim t'"
proof (induction ops arbitrary: t)
  case Nil
  then show ?case by simp
next
  case (Cons a ops)
  obtain k v where a: "a = (k, v)" by (cases a)
  from Cons.prems(2) obtain t1 where t1: "luaH_set redim t k v = Inr t1" "sets redim t1 ops = Inr t'"
    by (auto simp: a split: sum.splits)
  from reachable.set [OF Cons.prems(1) t1(1)] Cons.IH t1(2) show ?case by blast
qed

lemma luaH_get_ok:
  assumes "invariant t" "hashvalue k \<noteq> None"
  shows "luaH_get t k = Inr (lookup (node t) k)"
proof -
  from assms(1) have "table_ok t" by (simp add: invariant_def)
  moreover from invariant_size [OF assms(1)] have "0 < hsize t" by (rule conjunct1)
  ultimately show ?thesis using assms(2) by (rule luaH_get_lookup)
qed


lemma rounds_up_Suc: "rounds_up Suc"
  by (simp add: rounds_up_def)

lemma set_loop_None_absent:
  assumes inv: "invariant t" and mp: "luaH_mainposition t k = Inr mp"
    and nf: "set_loop (length (node t)) t k v mp = Inr None"
  shows "\<forall>i<length (node t). key (node t ! i) \<noteq> k"
proof (intro allI impI notI)
  fix i assume i: "i < length (node t)" "key (node t ! i) = k"
  from inv have ok: "table_ok t" by (simp add: invariant_def)
  from mainposition_bound [OF mp] invariant_size [OF inv] have b: "mp < length (node t)" by simp
  from table_ok_chain_at [OF ok b] obtain ys where c: "chain (node t) (Some mp) (mp # ys)"
    by blast
  from set_loop_chain [OF c chain_length [OF c]] find_key_present [OF ok mp c i]
  have "set_loop (length (node t)) t k v mp =
      Inr (Some (t\<lparr>node := (node t)[i := (node t ! i)\<lparr>val := v\<rparr>]\<rparr>))" by simp
  with nf show False by simp
qed


text \<open>
  C1. Main-position invariant. For every table made by \<^verbatim>\<open>luaH_new\<close> and changed by any
  finite sequence of \<^verbatim>\<open>luaH_set\<close> calls, every node that holds a key and whose key has
  another node as its main position finds that node holding a key which is in its own main
  position: collisions occur only between keys with the same main position. The sizing
  function is assumed to round up.
\<close>

theorem main_position_invariant_reachable:
  assumes "rounds_up redim" and "reachable redim t"
  shows "main_position_invariant t"
  unfolding main_position_invariant_def
proof (intro allI impI)
  fix i assume i: "i < hsize t" "key (node t ! i) \<noteq> LUA_T_NIL"
  from reachable_invariant [OF assms] have inv: "invariant t" .
  then have ok: "table_ok t" by (simp add: invariant_def)
  from i invariant_size [OF inv] have il: "i < length (node t)" by simp
  from table_ok_rootedD [OF ok il i(2)] obtain r xs where
    r: "luaH_mainposition t (key (node t ! i)) = Inr r"
    and c: "chain (node t) (Some r) xs"
    and m: "\<forall>j\<in>set xs. luaH_mainposition t (key (node t ! j)) = Inr r"
    unfolding rooted_def by blast
  from c have "r \<in> set xs" by (cases xs) auto
  with m have root: "luaH_mainposition t (key (node t ! r)) = Inr r" by blast
  then have "key (node t ! r) \<noteq> LUA_T_NIL" by (rule mainposition_not_nil)
  with r root show "\<exists>mp. luaH_mainposition t (key (node t ! i)) = Inr mp \<and>
      (mp \<noteq> i \<longrightarrow> key (node t ! mp) \<noteq> LUA_T_NIL \<and>
        luaH_mainposition t (key (node t ! mp)) = Inr mp)"
    by (intro exI [of _ r]) simp
qed

theorem main_position_invariant_witness:
  "\<exists>t. sets Suc (luaH_new Suc 3)
        [(LUA_T_NUMBER 0, LUA_T_NUMBER 1), (LUA_T_NUMBER 5, LUA_T_NUMBER 2)] = Inr t \<and>
     key (node t ! 4) = LUA_T_NUMBER 5 \<and> luaH_mainposition t (LUA_T_NUMBER 5) = Inr 0 \<and>
     reachable Suc t \<and> main_position_invariant t"
proof -
  define T where "T = \<lparr>node =
      [\<lparr>key = LUA_T_NUMBER 0, val = LUA_T_NUMBER 1, next = Some 4\<rparr>,
       \<lparr>key = LUA_T_NIL, val = LUA_T_NIL, next = None\<rparr>,
       \<lparr>key = LUA_T_NIL, val = LUA_T_NIL, next = None\<rparr>,
       \<lparr>key = LUA_T_NIL, val = LUA_T_NIL, next = None\<rparr>,
       \<lparr>key = LUA_T_NUMBER 5, val = LUA_T_NUMBER 2, next = None\<rparr>],
      hsize = 5, firstfree = 3\<rparr>"
  have e: "sets Suc (luaH_new Suc 3)
        [(LUA_T_NUMBER 0, LUA_T_NUMBER 1), (LUA_T_NUMBER 5, LUA_T_NUMBER 2)] = Inr T"
    unfolding T_def by code_simp
  have r: "reachable Suc T" by (rule sets_reachable [OF reachable.new e])
  have m: "main_position_invariant T"
    by (rule main_position_invariant_reachable [OF rounds_up_Suc r])
  have k: "key (node T ! 4) = LUA_T_NUMBER 5" "luaH_mainposition T (LUA_T_NUMBER 5) = Inr 0"
    unfolding T_def by code_simp+
  from e k r m show ?thesis by blast
qed





text \<open>
  C4. Brent's variation. When \<^verbatim>\<open>luaH_set\<close> inserts a key that no node holds and the node
  \<open>mp\<close> in the main position of the key is taken, the call goes through the insertion of
  lines 248 to 268 with the free node at \<^verbatim>\<open>firstfree\<close>, and: (a) if the key in \<open>mp\<close> is out of
  its own main position \<open>othern\<close>, the node before \<open>mp\<close> in the chain of \<open>othern\<close> is
  pointed to the free node, the free node receives the former content of \<open>mp\<close>, and \<open>mp\<close>
  receives the new pair with no successor; (b) if the key in \<open>mp\<close> is in its own main
  position, the free node receives the new pair and the former successor of \<open>mp\<close>, and
  \<open>mp\<close> is pointed to the free node.
\<close>

theorem brent_variation_insert:
  assumes "rounds_up redim" and "reachable redim t"
    and "luaH_mainposition t k = Inr mp"
    and "k \<notin> key ` set (node t)"
    and "key (node t ! mp) \<noteq> LUA_T_NIL"
  shows "luaH_set redim t k v =
      (case insert_pair t k v mp of Inl e \<Rightarrow> Inl e | Inr t' \<Rightarrow> check_free redim t') \<and>
    (\<exists>othern. luaH_mainposition t (key (node t ! mp)) = Inr othern \<and>
    key (node t ! firstfree t) = LUA_T_NIL \<and>
    (if othern \<noteq> mp then
       \<exists>prev ys zs. chain (node t) (Some othern) (ys @ prev # mp # zs) \<and>
         insert_pair t k v mp =
           Inr (t\<lparr>node := (node t)[prev := (node t ! prev)\<lparr>next := Some (firstfree t)\<rparr>,
              firstfree t := node t ! mp, mp := \<lparr>key = k, val = v, next = None\<rparr>]\<rparr>)
     else
       insert_pair t k v mp =
         Inr (t\<lparr>node := (node t)[firstfree t := \<lparr>key = k, val = v, next = next (node t ! mp)\<rparr>,
            mp := (node t ! mp)\<lparr>next := Some (firstfree t)\<rparr>]\<rparr>)))"
proof -
  from reachable_invariant [OF assms(1,2)] have inv: "invariant t" .
  from assms(4) have absent: "\<forall>i<length (node t). key (node t ! i) \<noteq> k" by auto
  note st = luaH_set_absent [OF inv absent assms(3), of redim v]
  from inv have ok: "table_ok t" and free: "key (node t ! firstfree t) = LUA_T_NIL"
    by (simp_all add: invariant_def)
  from mainposition_bound [OF assms(3)] invariant_size [OF inv] have b: "mp < length (node t)"
    by simp
  from table_ok_rootedD [OF ok b assms(5)] obtain othern where
    oth: "luaH_mainposition t (key (node t ! mp)) = Inr othern"
    unfolding rooted_def by blast
  show ?thesis
  proof (cases "othern = mp")
    case True
    with insert_pair_chain [OF inv assms(3), of v] oth free st show ?thesis by auto
  next
    case False
    from insert_pair_displace [OF inv assms(3) oth False, of v] obtain prev ys zs where
      "chain (node t) (Some othern) (ys @ prev # mp # zs)"
      "insert_pair t k v mp =
           Inr (t\<lparr>node := (node t)[prev := (node t ! prev)\<lparr>next := Some (firstfree t)\<rparr>,
              firstfree t := node t ! mp, mp := \<lparr>key = k, val = v, next = None\<rparr>]\<rparr>)"
      by blast
    with oth free False st show ?thesis by (intro conjI exI [of _ othern]) auto
  qed
qed

theorem brent_variation_insert_witness:
  "\<exists>t. sets Suc (luaH_new Suc 3)
        [(LUA_T_NUMBER 0, LUA_T_NUMBER 1), (LUA_T_NUMBER 5, LUA_T_NUMBER 2)] = Inr t \<and>
     firstfree t = 3 \<and>
     luaH_mainposition t (key (node t ! 4)) = Inr 0 \<and>
     (\<exists>prev ys zs. chain (node t) (Some 0) (ys @ prev # 4 # zs) \<and>
        insert_pair t (LUA_T_NUMBER 4) (LUA_T_NUMBER 3) 4 =
          Inr (t\<lparr>node := (node t)[prev := (node t ! prev)\<lparr>next := Some 3\<rparr>,
             3 := node t ! 4,
             4 := \<lparr>key = LUA_T_NUMBER 4, val = LUA_T_NUMBER 3, next = None\<rparr>]\<rparr>)) \<and>
     luaH_mainposition t (key (node t ! 0)) = Inr 0 \<and>
     insert_pair t (LUA_T_NUMBER 10) (LUA_T_NUMBER 3) 0 =
       Inr (t\<lparr>node := (node t)[3 := \<lparr>key = LUA_T_NUMBER 10, val = LUA_T_NUMBER 3,
               next = next (node t ! 0)\<rparr>,
          0 := (node t ! 0)\<lparr>next := Some 3\<rparr>]\<rparr>)"
proof -
  define T where "T = \<lparr>node =
      [\<lparr>key = LUA_T_NUMBER 0, val = LUA_T_NUMBER 1, next = Some 4\<rparr>,
       \<lparr>key = LUA_T_NIL, val = LUA_T_NIL, next = None\<rparr>,
       \<lparr>key = LUA_T_NIL, val = LUA_T_NIL, next = None\<rparr>,
       \<lparr>key = LUA_T_NIL, val = LUA_T_NIL, next = None\<rparr>,
       \<lparr>key = LUA_T_NUMBER 5, val = LUA_T_NUMBER 2, next = None\<rparr>],
      hsize = 5, firstfree = 3\<rparr>"
  have e: "sets Suc (luaH_new Suc 3)
        [(LUA_T_NUMBER 0, LUA_T_NUMBER 1), (LUA_T_NUMBER 5, LUA_T_NUMBER 2)] = Inr T"
    unfolding T_def by code_simp
  have r: "reachable Suc T" by (rule sets_reachable [OF reachable.new e])
  have ff: "firstfree T = 3" by (simp add: T_def)
  have m4: "luaH_mainposition T (LUA_T_NUMBER 4) = Inr 4"
    and o4: "luaH_mainposition T (key (node T ! 4)) = Inr 0"
    and m10: "luaH_mainposition T (LUA_T_NUMBER 10) = Inr 0"
    and o0: "luaH_mainposition T (key (node T ! 0)) = Inr 0"
    unfolding T_def by code_simp+
  have a4: "LUA_T_NUMBER 4 \<notin> key ` set (node T)" "key (node T ! 4) \<noteq> LUA_T_NIL"
    and a10: "LUA_T_NUMBER 10 \<notin> key ` set (node T)" "key (node T ! 0) \<noteq> LUA_T_NIL"
    by (simp_all add: T_def)
  from brent_variation_insert [OF rounds_up_Suc r m4 a4, of "LUA_T_NUMBER 3"] o4 ff
  have c4: "\<exists>prev ys zs. chain (node T) (Some 0) (ys @ prev # 4 # zs) \<and>
        insert_pair T (LUA_T_NUMBER 4) (LUA_T_NUMBER 3) 4 =
          Inr (T\<lparr>node := (node T)[prev := (node T ! prev)\<lparr>next := Some 3\<rparr>,
             3 := node T ! 4,
             4 := \<lparr>key = LUA_T_NUMBER 4, val = LUA_T_NUMBER 3, next = None\<rparr>]\<rparr>)"
    by simp
  from brent_variation_insert [OF rounds_up_Suc r m10 a10, of "LUA_T_NUMBER 3"] o0 ff
  have c10: "insert_pair T (LUA_T_NUMBER 10) (LUA_T_NUMBER 3) 0 =
       Inr (T\<lparr>node := (node T)[3 := \<lparr>key = LUA_T_NUMBER 10, val = LUA_T_NUMBER 3,
               next = next (node T ! 0)\<rparr>,
          0 := (node T ! 0)\<lparr>next := Some 3\<rparr>]\<rparr>)"
    by simp
  from e ff o4 c4 o0 c10 show ?thesis by blast
qed

text \<open>
  C5, amended. For every reachable table, \<^verbatim>\<open>luaH_get\<close> with a key that has a hash returns:
  the value of the node that holds the key when the chain of the key's main position has
  such a node, and nil when the chain ends without one; this is the value stored with the
  key in the table. With a key that has no hash (nil among them) it raises the error of
  \<^verbatim>\<open>luaH_mainposition\<close>. \<^verbatim>\<open>luaH_get\<close> yields a value or an error and no table: it writes
  nothing and calls neither \<^verbatim>\<open>luaH_set\<close> nor \<^verbatim>\<open>rehash\<close>.
\<close>

theorem luaH_get_hashable_key:
  assumes "rounds_up redim" and "reachable redim t"
  shows "(hashvalue k = None \<longrightarrow> luaH_get t k = Inl InvalidKeyError) \<and>
    (hashvalue k \<noteq> None \<longrightarrow>
       (\<exists>mp xs. luaH_mainposition t k = Inr mp \<and> chain (node t) (Some mp) xs \<and>
          luaH_get t k = Inr (case find (\<lambda>i. key (node t ! i) = k) xs of
                                None \<Rightarrow> LUA_T_NIL | Some i \<Rightarrow> val (node t ! i)) \<and>
          luaH_get t k = Inr (lookup (node t) k)))"
proof (intro conjI impI)
  assume "hashvalue k = None"
  then show "luaH_get t k = Inl InvalidKeyError"
    by (simp add: luaH_get_def luaH_mainposition_def)
next
  assume h: "hashvalue k \<noteq> None"
  from reachable_invariant [OF assms] have inv: "invariant t" .
  then have ok: "table_ok t" by (simp add: invariant_def)
  from invariant_size [OF inv] mainposition_defined [OF h] obtain mp where
    mp: "luaH_mainposition t k = Inr mp" by blast
  from mainposition_bound [OF mp] invariant_size [OF inv] have b: "mp < length (node t)" by simp
  from table_ok_chain_at [OF ok b] obtain ys where c: "chain (node t) (Some mp) (mp # ys)"
    by blast
  have "luaH_get t k = Inr (case find (\<lambda>i. key (node t ! i) = k) (mp # ys) of
      None \<Rightarrow> LUA_T_NIL | Some i \<Rightarrow> val (node t ! i))"
    using get_loop_chain [OF c chain_length [OF c]] mp by (simp add: luaH_get_def)
  with mp c luaH_get_ok [OF inv h]
  show "\<exists>mp xs. luaH_mainposition t k = Inr mp \<and> chain (node t) (Some mp) xs \<and>
          luaH_get t k = Inr (case find (\<lambda>i. key (node t ! i) = k) xs of
                                None \<Rightarrow> LUA_T_NIL | Some i \<Rightarrow> val (node t ! i)) \<and>
          luaH_get t k = Inr (lookup (node t) k)"
    by blast
qed

theorem luaH_get_hashable_key_witness:
  "\<exists>t. sets Suc (luaH_new Suc 3)
        [(LUA_T_NUMBER 0, LUA_T_NUMBER 1), (LUA_T_NUMBER 5, LUA_T_NUMBER 2)] = Inr t \<and>
     luaH_get t (LUA_T_NUMBER 5) = Inr (LUA_T_NUMBER 2) \<and>
     luaH_get t (LUA_T_NUMBER 10) = Inr LUA_T_NIL \<and>
     luaH_get t LUA_T_NIL = Inl InvalidKeyError"
proof -
  define T where "T = \<lparr>node =
      [\<lparr>key = LUA_T_NUMBER 0, val = LUA_T_NUMBER 1, next = Some 4\<rparr>,
       \<lparr>key = LUA_T_NIL, val = LUA_T_NIL, next = None\<rparr>,
       \<lparr>key = LUA_T_NIL, val = LUA_T_NIL, next = None\<rparr>,
       \<lparr>key = LUA_T_NIL, val = LUA_T_NIL, next = None\<rparr>,
       \<lparr>key = LUA_T_NUMBER 5, val = LUA_T_NUMBER 2, next = None\<rparr>],
      hsize = 5, firstfree = 3\<rparr>"
  have e: "sets Suc (luaH_new Suc 3)
        [(LUA_T_NUMBER 0, LUA_T_NUMBER 1), (LUA_T_NUMBER 5, LUA_T_NUMBER 2)] = Inr T"
    unfolding T_def by code_simp
  have r: "reachable Suc T" by (rule sets_reachable [OF reachable.new e])
  have l: "lookup (node T) (LUA_T_NUMBER 5) = LUA_T_NUMBER 2"
    "lookup (node T) (LUA_T_NUMBER 10) = LUA_T_NIL"
    by (simp_all add: T_def lookup_def)
  from luaH_get_hashable_key [OF rounds_up_Suc r, of "LUA_T_NUMBER 5"] l(1)
  have g5: "luaH_get T (LUA_T_NUMBER 5) = Inr (LUA_T_NUMBER 2)" by auto
  from luaH_get_hashable_key [OF rounds_up_Suc r, of "LUA_T_NUMBER 10"] l(2)
  have g10: "luaH_get T (LUA_T_NUMBER 10) = Inr LUA_T_NIL" by auto
  from luaH_get_hashable_key [OF rounds_up_Suc r, of LUA_T_NIL]
  have gn: "luaH_get T LUA_T_NIL = Inl InvalidKeyError" by simp
  from e g5 g10 gn show ?thesis by blast
qed

text \<open>
  The claim as first stated, that \<^verbatim>\<open>luaH_get\<close> never fails for any key, is false for the
  nil key on a new table.
\<close>

theorem luaH_get_nil_key_counterexample:
  "luaH_get (luaH_new Suc 0) LUA_T_NIL = Inl InvalidKeyError"
  by (simp add: luaH_get_def luaH_mainposition_def)

text \<open>
  C6. A key without a hash. For every table, \<^verbatim>\<open>luaH_set\<close> with a key that is nil or has
  another tag outside the switch of \<^verbatim>\<open>luaH_mainposition\<close> raises the error, and the table
  at that moment is the table that was passed in: nothing has been written.
\<close>

theorem luaH_set_invalid_key:
  assumes "hashvalue k = None"
  shows "luaH_set redim t k v = Inl (InvalidKeyError, t)"
  using assms by (simp add: luaH_set_def luaH_mainposition_def)

theorem luaH_set_invalid_key_witness:
  "luaH_set Suc (luaH_new Suc 0) LUA_T_NIL (LUA_T_NUMBER 1) = Inl (InvalidKeyError, luaH_new Suc 0) \<and>
   luaH_set Suc (luaH_new Suc 0) (LUA_T_OTHER 3) (LUA_T_NUMBER 1) = Inl (InvalidKeyError, luaH_new Suc 0)"
  using luaH_set_invalid_key [of LUA_T_NIL Suc "luaH_new Suc 0" "LUA_T_NUMBER 1"]
    luaH_set_invalid_key [of "LUA_T_OTHER 3" Suc "luaH_new Suc 0" "LUA_T_NUMBER 1"]
  by simp

lemma free_below_here: "key (nodes ! f) = LUA_T_NIL \<Longrightarrow> free_below nodes f = Some f"
  by (cases f) simp_all

lemma newsize_realuse:
  "hsize t = length (node t) \<Longrightarrow> newsize redim t = redim (realuse (node t) * 2)"
  by (simp add: newsize_def)

lemma check_free_rehash:
  assumes ok: "table_ok t" and cur: "cursor_ok t" and ru: "rounds_up redim"
    and full: "free_below (node t) (firstfree t) = None"
  shows "\<exists>t'. check_free redim t = Inr t' \<and> invariant t' \<and>
     hsize t' = redim (realuse (node t) * 2) \<and>
     (\<forall>m<length (node t'). key (node t' ! m) \<noteq> LUA_T_NIL \<longrightarrow> val (node t' ! m) \<noteq> LUA_T_NIL) \<and>
     (\<forall>k. k \<noteq> LUA_T_NIL \<longrightarrow> lookup (node t') k = lookup (node t) k)"
proof -
  from cur have b: "firstfree t < length (node t)" by (simp add: cursor_ok_def)
  have ok0: "table_ok (t\<lparr>firstfree := 0\<rparr>)" using ok by simp
  have "newsize redim (t\<lparr>firstfree := 0\<rparr>) = redim (realuse (node t) * 2)"
    using table_ok_size [OF ok] by (simp add: newsize_realuse)
  with rehash_ok [OF ok0 ru] full b show ?thesis by (auto simp: check_free_def)
qed

text \<open>
  C7. The size after a rehash. When \<^verbatim>\<open>luaH_set\<close> on a reachable table inserts a pair and
  finds no free node left, the call returns a table whose size is the sizing function
  applied to twice the number of nodes that held a value other than nil when the rehash
  began.
\<close>

theorem rehash_size:
  assumes "rounds_up redim" and "reachable redim t"
    and "luaH_mainposition t k = Inr mp"
    and "set_loop (length (node t)) t k v mp = Inr None"
    and "insert_pair t k v mp = Inr t1"
    and "free_below (node t1) (firstfree t1) = None"
  shows "\<exists>t'. luaH_set redim t k v = Inr t' \<and> hsize t' = redim (realuse (node t1) * 2) \<and>
    length (node t') = hsize t'"
proof -
  from reachable_invariant [OF assms(1,2)] have inv: "invariant t" .
  from set_loop_None_absent [OF inv assms(3,4)]
  have absent: "\<forall>i<length (node t). key (node t ! i) \<noteq> k" .
  from insert_pair_ok [OF inv assms(3) absent, of v] assms(5)
  have ok1: "table_ok t1" and cur1: "cursor_ok t1" by auto
  from check_free_rehash [OF ok1 cur1 assms(1,6)] obtain t' where
    c: "check_free redim t1 = Inr t'" and i': "invariant t'"
    and s: "hsize t' = redim (realuse (node t1) * 2)" by blast
  from assms(3,4,5) c have "luaH_set redim t k v = Inr t'" by (simp add: luaH_set_def)
  with s invariant_size [OF i'] show ?thesis by simp
qed

theorem rehash_size_witness:
  "\<exists>t t'. sets Suc (luaH_new Suc 3)
        [(LUA_T_NUMBER 1, LUA_T_NUMBER 10), (LUA_T_NUMBER 2, LUA_T_NUMBER 20),
         (LUA_T_NUMBER 3, LUA_T_NUMBER 30), (LUA_T_NUMBER 4, LUA_T_NUMBER 40),
         (LUA_T_NUMBER 1, LUA_T_NIL), (LUA_T_NUMBER 2, LUA_T_NIL),
         (LUA_T_NUMBER 3, LUA_T_NIL), (LUA_T_NUMBER 4, LUA_T_NIL)] = Inr t \<and>
     hsize t = 5 \<and>
     luaH_set Suc t (LUA_T_NUMBER 0) (LUA_T_NUMBER 9) = Inr t' \<and> hsize t' = 3"
proof -
  define T where "T = \<lparr>node =
      [\<lparr>key = LUA_T_NIL, val = LUA_T_NIL, next = None\<rparr>,
       \<lparr>key = LUA_T_NUMBER 1, val = LUA_T_NIL, next = None\<rparr>,
       \<lparr>key = LUA_T_NUMBER 2, val = LUA_T_NIL, next = None\<rparr>,
       \<lparr>key = LUA_T_NUMBER 3, val = LUA_T_NIL, next = None\<rparr>,
       \<lparr>key = LUA_T_NUMBER 4, val = LUA_T_NIL, next = None\<rparr>],
      hsize = 5, firstfree = 0\<rparr>"
  define T1 where "T1 = \<lparr>node =
      [\<lparr>key = LUA_T_NUMBER 0, val = LUA_T_NUMBER 9, next = None\<rparr>,
       \<lparr>key = LUA_T_NUMBER 1, val = LUA_T_NIL, next = None\<rparr>,
       \<lparr>key = LUA_T_NUMBER 2, val = LUA_T_NIL, next = None\<rparr>,
       \<lparr>key = LUA_T_NUMBER 3, val = LUA_T_NIL, next = None\<rparr>,
       \<lparr>key = LUA_T_NUMBER 4, val = LUA_T_NIL, next = None\<rparr>],
      hsize = 5, firstfree = 0\<rparr>"
  have e: "sets Suc (luaH_new Suc 3)
        [(LUA_T_NUMBER 1, LUA_T_NUMBER 10), (LUA_T_NUMBER 2, LUA_T_NUMBER 20),
         (LUA_T_NUMBER 3, LUA_T_NUMBER 30), (LUA_T_NUMBER 4, LUA_T_NUMBER 40),
         (LUA_T_NUMBER 1, LUA_T_NIL), (LUA_T_NUMBER 2, LUA_T_NIL),
         (LUA_T_NUMBER 3, LUA_T_NIL), (LUA_T_NUMBER 4, LUA_T_NIL)] = Inr T"
    unfolding T_def by code_simp
  have r: "reachable Suc T" by (rule sets_reachable [OF reachable.new e])
  have mp: "luaH_mainposition T (LUA_T_NUMBER 0) = Inr 0"
    and nf: "set_loop (length (node T)) T (LUA_T_NUMBER 0) (LUA_T_NUMBER 9) 0 = Inr None"
    and ip: "insert_pair T (LUA_T_NUMBER 0) (LUA_T_NUMBER 9) 0 = Inr T1"
    and fb: "free_below (node T1) (firstfree T1) = None"
    unfolding T_def T1_def by code_simp+
  have lv: "realuse (node T1) = 1" by (simp add: T1_def realuse_def)
  from rehash_size [OF rounds_up_Suc r mp nf ip fb] lv obtain t' where
    "luaH_set Suc T (LUA_T_NUMBER 0) (LUA_T_NUMBER 9) = Inr t'" "hsize t' = 3" by auto
  moreover have "hsize T = 5" by (simp add: T_def)
  ultimately show ?thesis using e by blast
qed






text \<open>
  C10, amended. For every reachable table and every key that has a hash and that no node
  holds, \<^verbatim>\<open>luaH_get\<close> returns nil, and \<^verbatim>\<open>luaH_set\<close> with nil goes through the insertion of
  lines 248 to 268: that stage leaves \<^verbatim>\<open>firstfree\<close> as it is and puts the key with a nil
  value in a node, so that one more node holds a key. The closing loop then leaves the table
  as it is when the node at \<^verbatim>\<open>firstfree\<close> is still free, moves \<^verbatim>\<open>firstfree\<close> down when there
  is a free node below, and otherwise rehashes, to the size given by the nodes with a
  value, which drops the key again. \<^verbatim>\<open>luaH_get\<close> returns nil afterwards in every case.
\<close>

theorem delete_absent_key_inserts:
  assumes "rounds_up redim" and "reachable redim t" and "hashvalue k \<noteq> None"
    and "k \<notin> key ` set (node t)"
  shows "luaH_get t k = Inr LUA_T_NIL \<and>
    (\<exists>mp t1 t'. luaH_mainposition t k = Inr mp \<and>
       insert_pair t k LUA_T_NIL mp = Inr t1 \<and>
       nkeys (node t1) = Suc (nkeys (node t)) \<and> firstfree t1 = firstfree t \<and>
       (\<exists>p<length (node t1). key (node t1 ! p) = k \<and> val (node t1 ! p) = LUA_T_NIL) \<and>
       check_free redim t1 = Inr t' \<and> luaH_set redim t k LUA_T_NIL = Inr t' \<and>
       luaH_get t' k = Inr LUA_T_NIL \<and>
       (case free_below (node t1) (firstfree t) of
          Some f \<Rightarrow> t' = t1\<lparr>firstfree := f\<rparr>
        | None \<Rightarrow> hsize t' = redim (realuse (node t1) * 2) \<and> k \<notin> key ` set (node t')) \<and>
       (if key (node t1 ! firstfree t) = LUA_T_NIL then t' = t1
        else firstfree t' \<noteq> firstfree t \<or> hsize t' = redim (realuse (node t1) * 2)))"
    (is "_ \<and> (\<exists>mp t1 t'. ?P mp t1 t')")
proof -
  from reachable_invariant [OF assms(1,2)] have inv: "invariant t" .
  from assms(3) have nn: "k \<noteq> LUA_T_NIL" by auto
  from assms(4) have absent: "\<forall>i<length (node t). key (node t ! i) \<noteq> k" by auto
  from luaH_get_ok [OF inv assms(3)] lookup_absent [OF absent]
  have g: "luaH_get t k = Inr LUA_T_NIL" by simp
  from invariant_size [OF inv] mainposition_defined [OF assms(3)] obtain mp where
    mp: "luaH_mainposition t k = Inr mp" by blast
  from insert_pair_ok [OF inv mp absent, of LUA_T_NIL] obtain t1 where
    ip: "insert_pair t k LUA_T_NIL mp = Inr t1" and ok1: "table_ok t1" and cur1: "cursor_ok t1"
    and ff: "firstfree t1 = firstfree t" and nk: "nkeys (node t1) = Suc (nkeys (node t))"
    and pr: "\<exists>p<length (node t1). key (node t1 ! p) = k \<and> val (node t1 ! p) = LUA_T_NIL"
    and l1: "\<forall>k'. k' \<noteq> LUA_T_NIL \<longrightarrow>
      lookup (node t1) k' = (if k' = k then LUA_T_NIL else lookup (node t) k')"
    by blast
  from cur1 have b: "firstfree t1 < length (node t1)" by (simp add: cursor_ok_def)
  from l1 nn have lk1: "lookup (node t1) k = LUA_T_NIL" by simp
  note st = luaH_set_absent [OF inv absent mp, of redim LUA_T_NIL]
  show ?thesis
  proof (cases "free_below (node t1) (firstfree t)")
    case (Some f)
    define t' where "t' = t1\<lparr>firstfree := f\<rparr>"
    from Some b ff have c: "check_free redim t1 = Inr t'" by (simp add: check_free_def t'_def)
    have "invariant t'" unfolding t'_def
      by (rule cursor_move [OF ok1 cur1]) (use Some ff in auto)
    from luaH_get_ok [OF this assms(3)] lk1 have g': "luaH_get t' k = Inr LUA_T_NIL"
      by (simp add: t'_def)
    have h: "if key (node t1 ! firstfree t) = LUA_T_NIL then t' = t1
        else firstfree t' \<noteq> firstfree t \<or> hsize t' = redim (realuse (node t1) * 2)"
    proof (cases "key (node t1 ! firstfree t) = LUA_T_NIL")
      case True
      from free_below_here [OF True] Some have "f = firstfree t" by simp
      with True ff show ?thesis by (simp add: t'_def)
    next
      case False
      from free_below_Some [OF Some] False have "f \<noteq> firstfree t" by auto
      with False show ?thesis by (simp add: t'_def)
    qed
    from mp ip nk ff pr c st g' Some h have "?P mp t1 t'" by (simp add: t'_def)
    with g show ?thesis by blast
  next
    case None
    with ff have full: "free_below (node t1) (firstfree t1) = None" by simp
    from check_free_rehash [OF ok1 cur1 assms(1) full] obtain t' where
      c: "check_free redim t1 = Inr t'" and i': "invariant t'"
      and s: "hsize t' = redim (realuse (node t1) * 2)"
      and lv: "\<forall>m<length (node t'). key (node t' ! m) \<noteq> LUA_T_NIL \<longrightarrow> val (node t' ! m) \<noteq> LUA_T_NIL"
      and l': "\<forall>k. k \<noteq> LUA_T_NIL \<longrightarrow> lookup (node t') k = lookup (node t1) k"
      by blast
    from l' lk1 nn have lk': "lookup (node t') k = LUA_T_NIL" by simp
    with luaH_get_ok [OF i' assms(3)] have g': "luaH_get t' k = Inr LUA_T_NIL" by simp
    have gone: "k \<notin> key ` set (node t')"
    proof
      assume "k \<in> key ` set (node t')"
      then obtain m where m: "m < length (node t')" "key (node t' ! m) = k"
        by (auto simp: in_set_conv_nth)
      from i' have "keys_distinct (node t')" by (simp add: invariant_def table_ok_def)
      from lookup_present [OF this m nn] lk' have "val (node t' ! m) = LUA_T_NIL" by simp
      with lv m nn show False by simp
    qed
    from free_below_None [OF None] have "key (node t1 ! firstfree t) \<noteq> LUA_T_NIL" by simp
    with mp ip nk ff pr c st g' None s gone have "?P mp t1 t'" by simp
    with g show ?thesis by blast
  qed
qed

theorem delete_absent_key_inserts_witness:
  "luaH_get (luaH_new Suc 3) (LUA_T_NUMBER 0) = Inr LUA_T_NIL \<and>
   (\<exists>t'. luaH_set Suc (luaH_new Suc 3) (LUA_T_NUMBER 0) LUA_T_NIL = Inr t' \<and>
      luaH_get t' (LUA_T_NUMBER 0) = Inr LUA_T_NIL \<and>
      nkeys (node t') = Suc (nkeys (node (luaH_new Suc 3))))"
proof -
  define T1 where "T1 = \<lparr>node =
      [\<lparr>key = LUA_T_NUMBER 0, val = LUA_T_NIL, next = None\<rparr>,
       \<lparr>key = LUA_T_NIL, val = LUA_T_NIL, next = None\<rparr>,
       \<lparr>key = LUA_T_NIL, val = LUA_T_NIL, next = None\<rparr>,
       \<lparr>key = LUA_T_NIL, val = LUA_T_NIL, next = None\<rparr>,
       \<lparr>key = LUA_T_NIL, val = LUA_T_NIL, next = None\<rparr>],
      hsize = 5, firstfree = 4\<rparr>"
  have a: "LUA_T_NUMBER 0 \<notin> key ` set (node (luaH_new Suc 3))" by code_simp
  have m: "luaH_mainposition (luaH_new Suc 3) (LUA_T_NUMBER 0) = Inr 0"
    and ip: "insert_pair (luaH_new Suc 3) (LUA_T_NUMBER 0) LUA_T_NIL 0 = Inr T1"
    and ff: "firstfree (luaH_new Suc 3) = 4"
    unfolding T1_def by code_simp+
  have f: "key (node T1 ! 4) = LUA_T_NIL" by (simp add: T1_def)
  have h: "hashvalue (LUA_T_NUMBER 0) \<noteq> None" by simp
  from delete_absent_key_inserts [OF rounds_up_Suc reachable.new h a] m ip ff f
  show ?thesis by auto
qed

text \<open>
  The claim as first stated has the call move \<^verbatim>\<open>firstfree\<close> down in every case. On a new
  table of five nodes the key 0 goes into its free main position, the first node, and
  \<^verbatim>\<open>firstfree\<close> stays at the last node.
\<close>

theorem delete_absent_key_cursor_counterexample:
  "map_sum fst (map key \<circ> node) (luaH_set Suc (luaH_new Suc 3) (LUA_T_NUMBER 0) LUA_T_NIL) =
     Inr [LUA_T_NUMBER 0, LUA_T_NIL, LUA_T_NIL, LUA_T_NIL, LUA_T_NIL] \<and>
   map_sum fst firstfree (luaH_set Suc (luaH_new Suc 3) (LUA_T_NUMBER 0) LUA_T_NIL) =
     Inr (firstfree (luaH_new Suc 3))"
  by code_simp

end
